theory Spec2Isabelle
  imports Main
begin

section \<open>Data model of \<^verbatim>\<open>src/RedditClient.ts\<close>\<close>

text \<open>
  The two interfaces of the source (lines 3-19) are records. An optional field
  (\<^verbatim>\<open>username?: string\<close>) is a \<open>string option\<close>, with \<open>None\<close> for
  \<^verbatim>\<open>undefined\<close>. Two records share the field names \<open>refreshToken\<close> and
  \<open>scope\<close>; they are always written with the record's name in front.
\<close>

subsection \<open>JavaScript numbers\<close>

text \<open>
  A JavaScript number is an IEEE 754 double. The numbers of the source are millisecond
  timestamps and second counts, so the model has the integer-valued doubles, the two
  infinities and NaN. A sum or a product is the exact result rounded to the nearest
  double, ties to even: \<open>round_nat\<close> keeps the 53 leading bits of a natural number
  (\<open>halvings n\<close> is the number of low bits that do not fit), and a result of
  magnitude \<open>2^1024\<close> or more overflows to an infinity. Fractions and the sign of
  zero are not modelled.
\<close>

datatype number = Num int | PosInf | NegInf | NaN

function halvings :: "nat \<Rightarrow> nat" where
  "halvings n = (if n < 9007199254740992 then 0 else Suc (halvings (n div 2)))"
  by pat_completeness auto
termination
  by (relation "measure id") auto

declare halvings.simps [simp del]

definition round_nat :: "nat \<Rightarrow> nat" where
  "round_nat n =
     (let k = halvings n; q = n div 2 ^ k; r = n mod 2 ^ k in
      if 2 * r > 2 ^ k \<or> (2 * r = 2 ^ k \<and> odd q) then (q + 1) * 2 ^ k else q * 2 ^ k)"

definition double :: "int \<Rightarrow> number" where
  "double x =
     (let m = round_nat (nat \<bar>x\<bar>) in
      if 2 ^ 1024 \<le> m then (if x < 0 then NegInf else PosInf)
      else Num (if x < 0 then - int m else int m))"

text \<open>\<^verbatim>\<open>a + b\<close> and \<^verbatim>\<open>a > b\<close> on numbers.\<close>

fun js_add :: "number \<Rightarrow> number \<Rightarrow> number" where
  "js_add (Num a) (Num b) = double (a + b)"
| "js_add NaN b = NaN"
| "js_add a NaN = NaN"
| "js_add PosInf NegInf = NaN"
| "js_add NegInf PosInf = NaN"
| "js_add PosInf b = PosInf"
| "js_add a PosInf = PosInf"
| "js_add NegInf b = NegInf"
| "js_add a NegInf = NegInf"

fun js_gt :: "number \<Rightarrow> number \<Rightarrow> bool" where
  "js_gt (Num a) (Num b) = (a > b)"
| "js_gt NaN b = False"
| "js_gt a NaN = False"
| "js_gt PosInf PosInf = False"
| "js_gt PosInf b = True"
| "js_gt a PosInf = False"
| "js_gt NegInf b = False"
| "js_gt a NegInf = True"

text \<open>
  \<^verbatim>\<open>x * 1000\<close> for a field \<open>x\<close> of a JSON answer that holds an integer or is
  absent: \<^verbatim>\<open>undefined * 1000\<close> is NaN.
\<close>

definition times_1000 :: "int option \<Rightarrow> number" where
  "times_1000 x = (case x of None \<Rightarrow> NaN | Some n \<Rightarrow> double (n * 1000))"

subsection \<open>The interfaces\<close>

record RedditAuthConfig =
  clientId :: string
  clientSecret :: string
  username :: "string option"
  password :: "string option"
  userAgent :: string
  refreshToken :: "string option"

record RedditToken =
  accessToken :: string
  tokenType :: string
  expiresIn :: "int option"
  refreshToken :: "string option"
  scope :: string
  expiresAt :: number

text \<open>
  The JSON object \<^verbatim>\<open>response.data\<close> answered by the token endpoint, with the
  fields the source reads at lines 110-117. The fields have the types the endpoint
  documents; \<open>refresh_token\<close> and \<open>expires_in\<close> may be absent (the source reads
  them without a check).
\<close>

record TokenResponse =
  access_token :: string
  token_type :: string
  expires_in :: "int option"
  refresh_token :: "string option"
  scope :: string

text \<open>
  The source throws one \<^verbatim>\<open>Error\<close> of its own (line 97, "Either refreshToken or
  username/password must be provided"); it is \<open>ConfigurationError\<close>. Every other
  failure is a rejection of an axios call, rethrown unchanged by the
  \<^verbatim>\<open>catch\<close> blocks; its payload is kept as a string.
\<close>

datatype error = ConfigurationError | AxiosError string

text \<open>An axios instance is what \<^verbatim>\<open>axios.create\<close> is given: a base URL and default headers.\<close>

record AxiosInstance =
  baseURL :: string
  headers :: "(string \<times> string) list"

text \<open>
  One call \<^verbatim>\<open>this.axios.post(url, params.toString(), { headers })\<close>. The body is
  kept as the entries of \<^verbatim>\<open>data\<close>, in order, before \<^verbatim>\<open>URLSearchParams\<close>
  serialises them.
\<close>

record PostRequest =
  post_instance :: AxiosInstance
  post_url :: string
  post_body :: "(string \<times> string) list"
  post_headers :: "(string \<times> string) list"

datatype jsval =
  JNull | JBool bool | JNum int | JStr string | JArr "jsval list" | JObj "(string \<times> jsval) list"

text \<open>One call \<^verbatim>\<open>apiClient.request({ url, ...options })\<close>.\<close>

record ApiRequest =
  api_client :: AxiosInstance
  api_config :: "string \<rightharpoonup> jsval"

record ApiResponse =
  status :: int
  data :: jsval

text \<open>
  The object \<^verbatim>\<open>this\<close> (lines 22-25). \<open>tokenPromise\<close> holds a reference to a
  promise: the index of that promise in the list of promises of the world below.
\<close>

record RedditClient =
  axios :: AxiosInstance
  config :: RedditAuthConfig
  token :: "RedditToken option"
  tokenPromise :: "nat option"

section \<open>JavaScript truthiness of optional strings\<close>

text \<open>
  \<^verbatim>\<open>undefined\<close> and the empty string are falsy; \<^verbatim>\<open>a || b\<close> is \<open>a\<close> when
  \<open>a\<close> is truthy and \<open>b\<close> otherwise.
\<close>

definition truthy :: "string option \<Rightarrow> bool" where
  "truthy v = (case v of None \<Rightarrow> False | Some s \<Rightarrow> s \<noteq> [])"

definition js_or :: "string option \<Rightarrow> string option \<Rightarrow> string option" where
  "js_or a b = (if truthy a then a else b)"

definition js_or_str :: "string option \<Rightarrow> string \<Rightarrow> string" where
  "js_or_str a d = (case a of None \<Rightarrow> d | Some s \<Rightarrow> if s \<noteq> [] then s else d)"

section \<open>Base64, as \<^verbatim>\<open>Buffer.from(s).toString('base64')\<close>\<close>

definition b64_alphabet :: string where
  "b64_alphabet = ''ABCDEFGHIJKLMNOPQRSTUVWXYZabcdefghijklmnopqrstuvwxyz0123456789+/''"

definition b64_char :: "nat \<Rightarrow> char" where
  "b64_char n = b64_alphabet ! (n mod 64)"

fun b64_bytes :: "nat list \<Rightarrow> string" where
  "b64_bytes [] = []"
| "b64_bytes [a] = [b64_char (a div 4), b64_char ((a mod 4) * 16), CHR ''='', CHR ''='']"
| "b64_bytes [a, b] =
     [b64_char (a div 4), b64_char ((a mod 4) * 16 + b div 16),
      b64_char ((b mod 16) * 4), CHR ''='']"
| "b64_bytes (a # b # c # rest) =
     [b64_char (a div 4), b64_char ((a mod 4) * 16 + b div 16),
      b64_char ((b mod 16) * 4 + c div 64), b64_char (c mod 64)] @ b64_bytes rest"

definition base64 :: "string \<Rightarrow> string" where
  "base64 s = b64_bytes (map of_char s)"

section \<open>The constructor (lines 27-44)\<close>

definition RedditClient_new :: "RedditAuthConfig option \<Rightarrow> (string \<rightharpoonup> string) \<Rightarrow> RedditClient" where
  "RedditClient_new cfg env =
     (let c = (case cfg of
                 Some c \<Rightarrow> c
               | None \<Rightarrow>
                   \<lparr> clientId = js_or_str (env ''REDDIT_CLIENT_ID'') '''',
                     clientSecret = js_or_str (env ''REDDIT_CLIENT_SECRET'') '''',
                     username = env ''REDDIT_USERNAME'',
                     password = env ''REDDIT_PASSWORD'',
                     userAgent = js_or_str (env ''REDDIT_USER_AGENT'') ''MyRedditApp/1.0.0'',
                     RedditAuthConfig.refreshToken = env ''REDDIT_REFRESH_TOKEN'' \<rparr>)
      in \<lparr> axios = \<lparr> baseURL = ''https://www.reddit.com'',
                     headers = [(''Content-Type'', ''application/x-www-form-urlencoded''),
                                (''User-Agent'', userAgent c)] \<rparr>,
           config = c,
           token = None,
           tokenPromise = None \<rparr>)"

section \<open>The world: the client, the clock, the promises and the pending calls\<close>

text \<open>
  An \<^verbatim>\<open>async\<close> function runs synchronously up to its first \<^verbatim>\<open>await\<close> and is
  resumed later, when the awaited promise has settled. Each function of the source is
  therefore split at its suspension points into a part run by the call and a part run
  by the resumption, and the scheduler of the JavaScript runtime is a list of events
  chosen by the environment.

  \<^item> \<open>promise\<close> is the state of a promise returned by \<^verbatim>\<open>requestToken()\<close>.
  \<^item> \<open>activation\<close> is the state of one call of \<^verbatim>\<open>getToken()\<close>: suspended at
    line 52 on the shared promise, suspended at line 65 on the promise it created
    itself, or settled with the access token or the error thrown.
  \<^item> \<open>clock\<close> is what \<^verbatim>\<open>Date.now()\<close> reads, a wall clock: the event
    \<open>Tick d\<close> moves it by \<open>d\<close> milliseconds, forward or back.
  \<^item> \<open>posts\<close> is the log of the calls made to the authorization endpoint.
\<close>

datatype promise = Pending | Fulfilled RedditToken | Rejected error

datatype activation = AwaitShared nat | AwaitOwn nat | Done "error + string"

record world =
  this :: RedditClient
  clock :: int
  promises :: "promise list"
  posts :: "PostRequest list"
  calls :: "activation list"

definition boot :: "RedditAuthConfig option \<Rightarrow> (string \<rightharpoonup> string) \<Rightarrow> int \<Rightarrow> world" where
  "boot cfg env t0 =
     \<lparr> this = RedditClient_new cfg env, clock = t0, promises = [], posts = [], calls = [] \<rparr>"

section \<open>\<^verbatim>\<open>requestToken\<close> (lines 78-124)\<close>

text \<open>\<^verbatim>\<open>this.token?.refreshToken\<close>\<close>

definition token_refreshToken :: "RedditClient \<Rightarrow> string option" where
  "token_refreshToken c = (case token c of None \<Rightarrow> None | Some t \<Rightarrow> RedditToken.refreshToken t)"

text \<open>Lines 81-98: the grant parameters, or the error thrown at line 97.\<close>

definition grant_data :: "RedditClient \<Rightarrow> error + (string \<times> string) list" where
  "grant_data c =
     (if truthy (js_or (token_refreshToken c) (RedditAuthConfig.refreshToken (config c))) then
        Inr [(''grant_type'', ''refresh_token''),
             (''refresh_token'',
                js_or_str (js_or (token_refreshToken c) (RedditAuthConfig.refreshToken (config c))) '''')]
      else
        (case (username (config c), password (config c)) of
           (Some u, Some p) \<Rightarrow>
             if u \<noteq> [] \<and> p \<noteq> [] then
               Inr [(''grant_type'', ''password''), (''username'', u), (''password'', p)]
             else Inl ConfigurationError
         | _ \<Rightarrow> Inl ConfigurationError))"

text \<open>Lines 79, 100-107: the request handed to \<^verbatim>\<open>this.axios.post\<close>.\<close>

definition token_post :: "RedditClient \<Rightarrow> (string \<times> string) list \<Rightarrow> PostRequest" where
  "token_post c d =
     \<lparr> post_instance = axios c,
       post_url = ''/api/v1/access_token'',
       post_body = d,
       post_headers =
         [(''Authorization'',
           ''Basic '' @ base64 (clientId (config c) @ '':'' @ clientSecret (config c)))] \<rparr>"

text \<open>
  The call of \<^verbatim>\<open>requestToken()\<close>: it allocates the promise it returns. Without a
  usable grant the promise is rejected at once and nothing is posted; otherwise the
  request is posted and the promise is pending until the answer comes.
\<close>

definition requestToken_call :: "world \<Rightarrow> world \<times> nat" where
  "requestToken_call w =
     (let p = length (promises w) in
      case grant_data (this w) of
        Inl e \<Rightarrow> (w\<lparr>promises := promises w @ [Rejected e]\<rparr>, p)
      | Inr d \<Rightarrow>
          (w\<lparr>promises := promises w @ [Pending],
             posts := posts w @ [token_post (this w) d]\<rparr>, p))"

text \<open>Lines 109-119: the token built from the answer, at the time the answer is processed.\<close>

definition token_of_response :: "RedditClient \<Rightarrow> int \<Rightarrow> TokenResponse \<Rightarrow> RedditToken" where
  "token_of_response c now r =
     \<lparr> accessToken = access_token r,
       tokenType = token_type r,
       expiresIn = expires_in r,
       RedditToken.refreshToken =
         js_or (js_or (refresh_token r) (token_refreshToken c))
               (RedditAuthConfig.refreshToken (config c)),
       RedditToken.scope = TokenResponse.scope r,
       expiresAt = js_add (Num now) (times_1000 (expires_in r)) \<rparr>"

text \<open>
  The resumption of \<^verbatim>\<open>requestToken()\<close> when the post of promise \<open>p\<close> settles,
  with the rejection of axios (\<open>Inl\<close>) or the answer (\<open>Inr\<close>).
\<close>

definition requestToken_resume :: "nat \<Rightarrow> string + TokenResponse \<Rightarrow> world \<Rightarrow> world option" where
  "requestToken_resume p r w =
     (if p < length (promises w) \<and> promises w ! p = Pending then
        Some (w\<lparr>promises := (promises w)
                  [p := (case r of
                           Inl cause \<Rightarrow> Rejected (AxiosError cause)
                         | Inr d \<Rightarrow> Fulfilled (token_of_response (this w) (clock w) d))]\<rparr>)
      else None)"

section \<open>\<^verbatim>\<open>getToken\<close> (lines 49-73)\<close>

text \<open>Line 57: \<^verbatim>\<open>this.token && this.token.expiresAt > Date.now() + 60000\<close>.\<close>

definition token_valid :: "RedditToken option \<Rightarrow> int \<Rightarrow> bool" where
  "token_valid tk now =
     (case tk of
        None \<Rightarrow> False
      | Some t \<Rightarrow> js_gt (expiresAt t) (js_add (Num now) (Num 60000)))"

text \<open>
  Lines 62-65: the refresh is started, the handle is set, and the call suspends on the
  promise it has just created. All of it happens in the same synchronous run as the
  two tests before it.
\<close>

definition getToken_refresh :: "world \<Rightarrow> world" where
  "getToken_refresh w =
     (let (w', p) = requestToken_call w in
      w'\<lparr>this := (this w')\<lparr>tokenPromise := Some p\<rparr>,
         calls := calls w' @ [AwaitOwn p]\<rparr>)"

text \<open>
  The call of \<^verbatim>\<open>getToken()\<close>, up to its first \<^verbatim>\<open>await\<close> or its
  \<^verbatim>\<open>return\<close>. It appends the activation of this call to \<open>calls\<close>.
\<close>

definition getToken_call :: "world \<Rightarrow> world" where
  "getToken_call w =
     (case tokenPromise (this w) of
        Some p \<Rightarrow> w\<lparr>calls := calls w @ [AwaitShared p]\<rparr>
      | None \<Rightarrow>
          (case token (this w) of
             Some t \<Rightarrow>
               if js_gt (expiresAt t) (js_add (Num (clock w)) (Num 60000)) then
                 w\<lparr>calls := calls w @ [Done (Inr (accessToken t))]\<rparr>
               else getToken_refresh w
           | None \<Rightarrow> getToken_refresh w))"

text \<open>
  The resumption of activation \<open>i\<close>, possible once the promise it awaits has settled.
  Line 53 for a call suspended at line 52; lines 65-72 for the call that created the
  promise, whose \<^verbatim>\<open>finally\<close> block clears \<open>tokenPromise\<close> on both paths.
\<close>

definition getToken_resume :: "nat \<Rightarrow> world \<Rightarrow> world option" where
  "getToken_resume i w =
     (if i < length (calls w) then
        (case calls w ! i of
           AwaitShared p \<Rightarrow>
             (if p < length (promises w) then
                (case promises w ! p of
                   Pending \<Rightarrow> None
                 | Fulfilled t \<Rightarrow> Some (w\<lparr>calls := (calls w)[i := Done (Inr (accessToken t))]\<rparr>)
                 | Rejected e \<Rightarrow> Some (w\<lparr>calls := (calls w)[i := Done (Inl e)]\<rparr>))
              else None)
         | AwaitOwn p \<Rightarrow>
             (if p < length (promises w) then
                (case promises w ! p of
                   Pending \<Rightarrow> None
                 | Fulfilled t \<Rightarrow>
                     Some (w\<lparr>this := (this w)\<lparr>token := Some t, tokenPromise := None\<rparr>,
                             calls := (calls w)[i := Done (Inr (accessToken t))]\<rparr>)
                 | Rejected e \<Rightarrow>
                     Some (w\<lparr>this := (this w)\<lparr>tokenPromise := None\<rparr>,
                             calls := (calls w)[i := Done (Inl e)]\<rparr>))
              else None)
         | Done r \<Rightarrow> None)
      else None)"

section \<open>Events and runs\<close>

text \<open>
  \<open>Call\<close>: some caller invokes \<^verbatim>\<open>getToken()\<close>. \<open>Response p r\<close>: the post of
  promise \<open>p\<close> settles with \<open>r\<close>. \<open>Resume i\<close>: the runtime resumes activation
  \<open>i\<close>. \<open>Tick d\<close>: the clock moves by \<open>d\<close> milliseconds. An event that cannot happen in a
  world (a resumption on a pending promise, an answer to a request that is not
  pending) gives \<open>None\<close>. The runtime resumes the waiters of a promise in the order
  they subscribed and before any later task; the model allows every order and every
  interleaving, so what holds for all runs of the model holds for the runs of the runtime.
\<close>

datatype event = Call | Response nat "string + TokenResponse" | Resume nat | Tick int

fun step :: "event \<Rightarrow> world \<Rightarrow> world option" where
  "step Call w = Some (getToken_call w)"
| "step (Response p r) w = requestToken_resume p r w"
| "step (Resume i) w = getToken_resume i w"
| "step (Tick d) w = Some (w\<lparr>clock := clock w + d\<rparr>)"

fun run :: "event list \<Rightarrow> world \<Rightarrow> world option" where
  "run [] w = Some w"
| "run (e # es) w = (case step e w of None \<Rightarrow> None | Some w' \<Rightarrow> run es w')"

section \<open>\<^verbatim>\<open>getApiClient\<close> (lines 129-144) and \<^verbatim>\<open>request\<close> (lines 149-162)\<close>

text \<open>
  Both functions call \<^verbatim>\<open>getToken()\<close> at once and do the rest after it has
  settled, so each is a function of the outcome \<open>r\<close> of that call. They read
  \<^verbatim>\<open>this.config.userAgent\<close> and write nothing.
\<close>

definition getApiClient_resume :: "RedditClient \<Rightarrow> error + string \<Rightarrow> error + AxiosInstance" where
  "getApiClient_resume c r =
     (case r of
        Inl e \<Rightarrow> Inl e
      | Inr tk \<Rightarrow>
          Inr \<lparr> baseURL = ''https://oauth.reddit.com'',
                headers = [(''Authorization'', ''Bearer '' @ tk),
                           (''User-Agent'', userAgent (config c))] \<rparr>)"

text \<open>
  \<^verbatim>\<open>{ url, ...options }\<close>: the entries of \<open>options\<close> come last and win.
  \<open>request_resume\<close> gives the requests issued on the resource API and the outcome
  of \<^verbatim>\<open>request\<close>, from the outcome of \<^verbatim>\<open>getToken()\<close> and the behaviour
  of the transport.
\<close>

definition request_config :: "string \<Rightarrow> (string \<rightharpoonup> jsval) \<Rightarrow> (string \<rightharpoonup> jsval)" where
  "request_config u options = [''url'' \<mapsto> JStr u] ++ options"

definition request_resume ::
  "RedditClient \<Rightarrow> string \<Rightarrow> (string \<rightharpoonup> jsval) \<Rightarrow> (ApiRequest \<Rightarrow> string + ApiResponse) \<Rightarrow>
     error + string \<Rightarrow> ApiRequest list \<times> (error + jsval)" where
  "request_resume c u options transport r =
     (case getApiClient_resume c r of
        Inl e \<Rightarrow> ([], Inl e)
      | Inr apiClient \<Rightarrow>
          (let q = \<lparr> api_client = apiClient, api_config = request_config u options \<rparr> in
           case transport q of
             Inl cause \<Rightarrow> ([q], Inl (AxiosError cause))
           | Inr response \<Rightarrow> ([q], Inr (data response))))"

section \<open>Notions used in the statements\<close>

text \<open>
  What a caller that awaits a promise receives once the promise has settled: the access
  token of the token it was fulfilled with (lines 53 and 66), or the error it was rejected
  with. A pending promise gives nothing yet.
\<close>

definition outcome :: "promise \<Rightarrow> (error + string) option" where
  "outcome q = (case q of Pending \<Rightarrow> None | Fulfilled t \<Rightarrow> Some (Inr (accessToken t)) | Rejected e \<Rightarrow> Some (Inl e))"

text \<open>
  The promise that \<open>requestToken_call\<close> allocates and the requests it posts, as
  functions of the client (lemma \<open>getToken_refresh_eq\<close> below).
\<close>

definition refresh_promise :: "RedditClient \<Rightarrow> promise" where
  "refresh_promise c = (case grant_data c of Inl e \<Rightarrow> Rejected e | Inr d \<Rightarrow> Pending)"

definition refresh_posts :: "RedditClient \<Rightarrow> PostRequest list" where
  "refresh_posts c = (case grant_data c of Inl e \<Rightarrow> [] | Inr d \<Rightarrow> [token_post c d])"

text \<open>
  \<open>forward e\<close>: the event does not set the clock back. \<open>date_range t\<close>: \<open>t\<close> is a
  time value that \<^verbatim>\<open>Date.now()\<close> can return, at most 8.64e15 milliseconds from
  the epoch; on such values \<^verbatim>\<open>Date.now() + 60000\<close> is exact.
\<close>

definition forward :: "event \<Rightarrow> bool" where
  "forward e = (case e of Tick d \<Rightarrow> 0 \<le> d | _ \<Rightarrow> True)"

definition date_range :: "int \<Rightarrow> bool" where
  "date_range t \<longleftrightarrow> \<bar>t\<bar> \<le> 8640000000000000"

text \<open>
  The invariant of the worlds that the constructor and the events can produce:
  \<^item> a call suspended at line 65 awaits the promise that \<open>tokenPromise\<close> holds;
  \<^item> at most one call is suspended at line 65;
  \<^item> a pending promise is the one that \<open>tokenPromise\<close> holds;
  \<^item> \<open>tokenPromise\<close> and the calls suspended at line 52 refer to allocated promises.
\<close>

definition is_own :: "activation \<Rightarrow> bool" where
  "is_own a = (case a of AwaitOwn p \<Rightarrow> True | _ \<Rightarrow> False)"

definition own_handle :: "world \<Rightarrow> bool" where
  "own_handle w \<longleftrightarrow>
     (\<forall>i<length (calls w). \<forall>p. calls w ! i = AwaitOwn p \<longrightarrow> tokenPromise (this w) = Some p)"

definition own_unique :: "world \<Rightarrow> bool" where
  "own_unique w \<longleftrightarrow>
     (\<forall>i<length (calls w). \<forall>j<length (calls w).
         i \<noteq> j \<longrightarrow> is_own (calls w ! i) \<longrightarrow> \<not> is_own (calls w ! j))"

definition pending_handle :: "world \<Rightarrow> bool" where
  "pending_handle w \<longleftrightarrow>
     (\<forall>q<length (promises w). promises w ! q = Pending \<longrightarrow> tokenPromise (this w) = Some q)"

definition handle_ref :: "world \<Rightarrow> bool" where
  "handle_ref w \<longleftrightarrow> (\<forall>p. tokenPromise (this w) = Some p \<longrightarrow> p < length (promises w))"

definition shared_ref :: "world \<Rightarrow> bool" where
  "shared_ref w \<longleftrightarrow>
     (\<forall>i<length (calls w). \<forall>p. calls w ! i = AwaitShared p \<longrightarrow> p < length (promises w))"

definition invariant :: "world \<Rightarrow> bool" where
  "invariant w \<longleftrightarrow>
     own_handle w \<and> own_unique w \<and> pending_handle w \<and> handle_ref w \<and> shared_ref w"

text \<open>
  While \<open>tokenPromise\<close> is set, the cached token does not pass the test of line 57.
  This holds as long as the clock is not set back, and not otherwise.
\<close>

definition stale_handle :: "world \<Rightarrow> bool" where
  "stale_handle w \<longleftrightarrow>
     (tokenPromise (this w) \<noteq> None \<longrightarrow> \<not> token_valid (token (this w)) (clock w))"

text \<open>
  Two predicates for the proof about concurrent calls. \<open>in_flight w0 w\<close>: starting
  from the idle world \<open>w0\<close>, one call has started a refresh and has not been resumed
  yet; every later call has joined that refresh. \<open>landed n0 n1 p r\<close>: promise
  \<open>p\<close> has settled with outcome \<open>r\<close>, and each of the calls \<open>n0\<close> to
  \<open>n1 - 1\<close> still awaits \<open>p\<close> or has settled with \<open>r\<close>.
\<close>

definition joined :: "world \<Rightarrow> nat \<Rightarrow> nat \<Rightarrow> bool" where
  "joined w p j =
     (case calls w ! j of
        AwaitShared q \<Rightarrow> q = p
      | AwaitOwn q \<Rightarrow> False
      | Done r \<Rightarrow> outcome (promises w ! p) = Some r)"

definition in_flight :: "world \<Rightarrow> world \<Rightarrow> bool" where
  "in_flight w0 w \<longleftrightarrow>
     tokenPromise (this w) = Some (length (promises w0)) \<and>
     length (promises w) = Suc (length (promises w0)) \<and>
     posts w = posts w0 @ refresh_posts (this w0) \<and>
     length (calls w0) < length (calls w) \<and>
     calls w ! length (calls w0) = AwaitOwn (length (promises w0)) \<and>
     (\<forall>j<length (calls w0). \<not> is_own (calls w ! j)) \<and>
     (\<forall>j<length (calls w). length (calls w0) < j \<longrightarrow> joined w (length (promises w0)) j)"

definition landed :: "nat \<Rightarrow> nat \<Rightarrow> nat \<Rightarrow> error + string \<Rightarrow> world \<Rightarrow> bool" where
  "landed n0 n1 p r w \<longleftrightarrow>
     p < length (promises w) \<and> outcome (promises w ! p) = Some r \<and> n1 \<le> length (calls w) \<and>
     (\<forall>j<n1. n0 \<le> j \<longrightarrow> calls w ! j = AwaitShared p \<or> calls w ! j = Done r)"

text \<open>
  Configurations and answers of the token endpoint used in the examples: a password
  grant, a configuration with both a refresh token and a password, the answer of the
  scenario of the specification (no refresh token in it), an answer that carries a
  refresh token, and an answer with a lifetime beyond \<open>2^53\<close> milliseconds.
\<close>

definition cfg_password :: RedditAuthConfig where
  "cfg_password = \<lparr> clientId = ''id'', clientSecret = ''secret'', username = Some ''alice'',
      password = Some ''pw'', userAgent = ''UA/1.0'', RedditAuthConfig.refreshToken = None \<rparr>"

definition cfg_both :: RedditAuthConfig where
  "cfg_both = \<lparr> clientId = ''id'', clientSecret = ''secret'', username = Some ''alice'',
      password = Some ''pw'', userAgent = ''UA/1.0'',
      RedditAuthConfig.refreshToken = Some ''RT0'' \<rparr>"

definition resp_AT1 :: TokenResponse where
  "resp_AT1 = \<lparr> access_token = ''AT1'', token_type = ''bearer'', expires_in = Some 3600,
      refresh_token = None, TokenResponse.scope = ''read'' \<rparr>"

definition resp_RT1 :: TokenResponse where
  "resp_RT1 = \<lparr> access_token = ''AT2'', token_type = ''bearer'', expires_in = Some 3600,
      refresh_token = Some ''RT1'', TokenResponse.scope = ''read'' \<rparr>"


section \<open>Doubles that hold small integers\<close>

text \<open>
  Below \<open>2^53\<close> nothing is rounded. The two examples above \<open>2^53\<close> are used in the
  counterexample of claim C7.
\<close>

lemma halvings_small: "n < 9007199254740992 \<Longrightarrow> halvings n = 0"
  by (subst halvings.simps) simp

lemma round_nat_small: "n < 9007199254740992 \<Longrightarrow> round_nat n = n"
  by (simp add: round_nat_def halvings_small)

lemma below_overflow: "(9007199254740992::nat) < 2 ^ 1024"
proof -
  have "(9007199254740992::nat) = 2 ^ 53" by simp
  also have "\<dots> < 2 ^ 1024" by (rule power_strict_increasing) simp_all
  finally show ?thesis .
qed

lemma double_exact:
  assumes "\<bar>x\<bar> < 9007199254740992" shows "double x = Num x"
proof -
  let ?n = "nat \<bar>x\<bar>"
  from assms have n: "?n < 9007199254740992" by linarith
  then have r: "round_nat ?n = ?n" by (rule round_nat_small)
  from n below_overflow have "\<not> 2 ^ 1024 \<le> ?n" by linarith
  with r show ?thesis unfolding double_def Let_def by (simp only: if_False) auto
qed

lemma deadline_exact: "date_range t \<Longrightarrow> double (t + 60000) = Num (t + 60000)"
proof -
  assume "date_range t"
  then have "\<bar>t + 60000\<bar> < 9007199254740992" by (simp add: date_range_def)
  then show ?thesis by (rule double_exact)
qed






section \<open>The steps, equation by equation\<close>

lemmas run_defs = boot_def RedditClient_new_def getToken_call_def getToken_refresh_def
  requestToken_call_def requestToken_resume_def getToken_resume_def grant_data_def
  token_refreshToken_def token_of_response_def js_or_def js_or_str_def truthy_def Let_def
  times_1000_def double_exact

lemma getToken_refresh_eq:
  "getToken_refresh w =
     w\<lparr>this := (this w)\<lparr>tokenPromise := Some (length (promises w))\<rparr>,
       promises := promises w @ [refresh_promise (this w)],
       posts := posts w @ refresh_posts (this w),
       calls := calls w @ [AwaitOwn (length (promises w))]\<rparr>"
  by (cases "grant_data (this w)")
     (simp_all add: getToken_refresh_def requestToken_call_def refresh_promise_def refresh_posts_def Let_def)

lemma getToken_call_cases:
  "getToken_call w =
     (case tokenPromise (this w) of
        Some p \<Rightarrow> w\<lparr>calls := calls w @ [AwaitShared p]\<rparr>
      | None \<Rightarrow>
          if token_valid (token (this w)) (clock w)
          then w\<lparr>calls := calls w @ [Done (Inr (accessToken (the (token (this w)))))]\<rparr>
          else getToken_refresh w)"
  by (simp add: getToken_call_def token_valid_def split: option.splits)

lemma requestToken_resume_Some:
  "requestToken_resume p r w = Some w' \<longleftrightarrow>
     p < length (promises w) \<and> promises w ! p = Pending \<and>
     w' = w\<lparr>promises := (promises w)[p := (case r of Inl cause \<Rightarrow> Rejected (AxiosError cause)
                | Inr d \<Rightarrow> Fulfilled (token_of_response (this w) (clock w) d))]\<rparr>"
  by (auto simp: requestToken_resume_def)

lemma getToken_resume_Some:
  assumes "getToken_resume i w = Some w'"
  obtains (shared) p r where "i < length (calls w)" "calls w ! i = AwaitShared p" "p < length (promises w)"
      "outcome (promises w ! p) = Some r" "w' = w\<lparr>calls := (calls w)[i := Done r]\<rparr>"
  | (own) p r where "i < length (calls w)" "calls w ! i = AwaitOwn p" "p < length (promises w)"
      "outcome (promises w ! p) = Some r"
      "w' = w\<lparr>this := (this w)\<lparr>token := (case promises w ! p of Fulfilled t \<Rightarrow> Some t | _ \<Rightarrow> token (this w)),
                 tokenPromise := None\<rparr>, calls := (calls w)[i := Done r]\<rparr>"
  using assms
  by (auto simp: getToken_resume_def outcome_def split: if_splits activation.splits promise.splits)

lemma getToken_call_calls: "\<exists>a. calls (getToken_call w) = calls w @ [a]"
  by (cases "tokenPromise (this w)")
     (simp_all add: getToken_call_cases getToken_refresh_eq)

lemma resume_shared:
  assumes "j < length (calls w)" "calls w ! j = AwaitShared p" "p < length (promises w)"
    "outcome (promises w ! p) = Some r"
  shows "step (Resume j) w = Some (w\<lparr>calls := (calls w)[j := Done r]\<rparr>)"
  using assms by (cases "promises w ! p") (simp_all add: getToken_resume_def outcome_def)

lemma resume_own_rejected:
  assumes "i < length (calls w)" "calls w ! i = AwaitOwn p" "p < length (promises w)"
    "promises w ! p = Rejected e"
  shows "step (Resume i) w =
    Some (w\<lparr>this := (this w)\<lparr>tokenPromise := None\<rparr>, calls := (calls w)[i := Done (Inl e)]\<rparr>)"
  using assms by (simp add: getToken_resume_def)

lemma outcome_Some_not_Pending: "outcome q = Some r \<Longrightarrow> q \<noteq> Pending"
  by (auto simp: outcome_def)

lemma requestToken_call_posts:
  "grant_data (this w) = Inr d \<Longrightarrow>
     posts (fst (requestToken_call w)) = posts w @ [token_post (this w) d]"
  by (simp add: requestToken_call_def Let_def)



lemma js_or_idem: "js_or (js_or a b) b = js_or a b"
  by (simp add: js_or_def)

lemma grant_data_handle [simp]: "grant_data (c\<lparr>tokenPromise := x\<rparr>) = grant_data c"
  by (simp add: grant_data_def token_refreshToken_def)

lemma token_post_handle [simp]: "token_post (c\<lparr>tokenPromise := x\<rparr>) d = token_post c d"
  by (simp add: token_post_def)

lemma refresh_promise_handle [simp]: "refresh_promise (c\<lparr>tokenPromise := x\<rparr>) = refresh_promise c"
  by (simp add: refresh_promise_def)

lemma refresh_posts_handle [simp]: "refresh_posts (c\<lparr>tokenPromise := x\<rparr>) = refresh_posts c"
  by (simp add: refresh_posts_def split: sum.splits)

section \<open>The invariant holds in every reachable world\<close>

text \<open>
  Each event preserves the invariant. The proofs go through the five parts one by one.
\<close>

lemma is_own_simps [simp]: "is_own (AwaitOwn p)" "\<not> is_own (AwaitShared p)" "\<not> is_own (Done r)"
  by (simp_all add: is_own_def)

lemma is_ownE: "is_own a \<Longrightarrow> \<exists>p. a = AwaitOwn p"
  by (cases a) (simp_all add: is_own_def)

lemma invariant_boot: "invariant (boot cfg env t0)"
  by (simp add: invariant_def own_handle_def own_unique_def pending_handle_def handle_ref_def
        shared_ref_def boot_def RedditClient_new_def Let_def)

lemma invariant_clock:
  assumes "invariant w" shows "invariant (w\<lparr>clock := c\<rparr>)"
proof -
  have "own_handle (w\<lparr>clock := c\<rparr>) = own_handle w" by (simp add: own_handle_def)
  moreover have "own_unique (w\<lparr>clock := c\<rparr>) = own_unique w" by (simp add: own_unique_def)
  moreover have "pending_handle (w\<lparr>clock := c\<rparr>) = pending_handle w"
    by (simp add: pending_handle_def)
  moreover have "handle_ref (w\<lparr>clock := c\<rparr>) = handle_ref w" by (simp add: handle_ref_def)
  moreover have "shared_ref (w\<lparr>clock := c\<rparr>) = shared_ref w" by (simp add: shared_ref_def)
  ultimately show ?thesis using assms by (simp only: invariant_def simp_thms)
qed

lemma invariant_append:
  assumes "invariant w" "\<not> is_own a" "\<And>p. a = AwaitShared p \<Longrightarrow> p < length (promises w)"
  shows "invariant (w\<lparr>calls := calls w @ [a]\<rparr>)"
proof -
  let ?w = "w\<lparr>calls := calls w @ [a]\<rparr>"
  have nth: "\<And>i. i < length (calls w) \<Longrightarrow> (calls w @ [a]) ! i = calls w ! i"
    by (simp add: nth_append)
  have last: "\<And>i. i < Suc (length (calls w)) \<Longrightarrow> \<not> i < length (calls w) \<Longrightarrow> (calls w @ [a]) ! i = a"
    by (simp add: nth_append less_Suc_eq)
  have a_own: "\<And>p. a \<noteq> AwaitOwn p" using assms(2) by auto
  have 1: "own_handle ?w"
    unfolding own_handle_def
  proof (intro allI impI)
    fix i p assume i: "i < length (calls ?w)" and e: "calls ?w ! i = AwaitOwn p"
    show "tokenPromise (this ?w) = Some p"
    proof (cases "i < length (calls w)")
      case True
      with e nth have "calls w ! i = AwaitOwn p" by simp
      with True assms(1) show ?thesis by (simp add: invariant_def own_handle_def)
    next
      case False
      with i last [of i] e a_own show ?thesis by simp
    qed
  qed
  have 2: "own_unique ?w"
    unfolding own_unique_def
  proof (intro allI impI)
    fix i j assume i: "i < length (calls ?w)" and j: "j < length (calls ?w)" and ne: "i \<noteq> j"
      and oi: "is_own (calls ?w ! i)"
    have il: "i < length (calls w)"
    proof (rule ccontr)
      assume "\<not> i < length (calls w)"
      with i last [of i] oi assms(2) show False by simp
    qed
    show "\<not> is_own (calls ?w ! j)"
    proof (cases "j < length (calls w)")
      case True
      from assms(1) have "own_unique w" by (simp add: invariant_def)
      with il True ne oi nth [OF il] have "\<not> is_own (calls w ! j)"
        by (simp add: own_unique_def)
      with nth [OF True] show ?thesis by simp
    next
      case False
      with j last [of j] assms(2) show ?thesis by simp
    qed
  qed
  have 3: "pending_handle ?w" using assms(1) by (simp add: invariant_def pending_handle_def)
  have 4: "handle_ref ?w" using assms(1) by (simp add: invariant_def handle_ref_def)
  have 5: "shared_ref ?w"
    unfolding shared_ref_def
  proof (intro allI impI)
    fix i p assume i: "i < length (calls ?w)" and e: "calls ?w ! i = AwaitShared p"
    show "p < length (promises ?w)"
    proof (cases "i < length (calls w)")
      case True
      with e nth have "calls w ! i = AwaitShared p" by simp
      with True assms(1) show ?thesis by (simp add: invariant_def shared_ref_def)
    next
      case False
      with i last [of i] e have "a = AwaitShared p" by simp
      then show ?thesis using assms(3) by simp
    qed
  qed
  from 1 2 3 4 5 show ?thesis by (simp only: invariant_def simp_thms)
qed

lemma idle_no_owner:
  assumes "invariant w" "tokenPromise (this w) = None" "i < length (calls w)"
  shows "\<not> is_own (calls w ! i)"
proof
  assume "is_own (calls w ! i)"
  then obtain p where "calls w ! i = AwaitOwn p" using is_ownE by blast
  with assms(1,3) have "tokenPromise (this w) = Some p" by (simp add: invariant_def own_handle_def)
  with assms(2) show False by simp
qed

lemma idle_no_pending:
  assumes "invariant w" "tokenPromise (this w) = None" "q < length (promises w)"
  shows "promises w ! q \<noteq> Pending"
proof
  assume "promises w ! q = Pending"
  with assms(1,3) have "tokenPromise (this w) = Some q" by (simp add: invariant_def pending_handle_def)
  with assms(2) show False by simp
qed

lemma invariant_refresh:
  assumes inv: "invariant w" and idle: "tokenPromise (this w) = None"
  shows "invariant (getToken_refresh w)"
proof -
  let ?n = "length (promises w)"
  let ?w = "getToken_refresh w"
  have th: "tokenPromise (this ?w) = Some ?n" by (simp add: getToken_refresh_eq)
  have tk: "token (this ?w) = token (this w)" "clock ?w = clock w" by (simp_all add: getToken_refresh_eq)
  have cs: "calls ?w = calls w @ [AwaitOwn ?n]" by (simp add: getToken_refresh_eq)
  have ps: "promises ?w = promises w @ [refresh_promise (this w)]" by (simp add: getToken_refresh_eq)
  have nth: "\<And>i. i < length (calls w) \<Longrightarrow> calls ?w ! i = calls w ! i"
    by (simp add: cs nth_append)
  have last: "\<And>i. i < length (calls ?w) \<Longrightarrow> \<not> i < length (calls w) \<Longrightarrow> i = length (calls w)"
    by (simp add: cs)
  have noown: "\<And>i. i < length (calls w) \<Longrightarrow> \<not> is_own (calls ?w ! i)"
    using idle_no_owner [OF inv idle] nth by simp
  have 1: "own_handle ?w"
    unfolding own_handle_def
  proof (intro allI impI)
    fix i p assume i: "i < length (calls ?w)" and e: "calls ?w ! i = AwaitOwn p"
    have "\<not> i < length (calls w)" using noown [of i] e by auto
    with last [OF i] have "i = length (calls w)" by simp
    with e cs have "p = ?n" by simp
    with th show "tokenPromise (this ?w) = Some p" by simp
  qed
  have 2: "own_unique ?w"
    unfolding own_unique_def
  proof (intro allI impI)
    fix i j assume i: "i < length (calls ?w)" and j: "j < length (calls ?w)" and ne: "i \<noteq> j"
      and oi: "is_own (calls ?w ! i)"
    have "\<not> i < length (calls w)" using noown [of i] oi by auto
    with last [OF i] have "i = length (calls w)" by simp
    with ne last [OF j] have "j < length (calls w)" by auto
    then show "\<not> is_own (calls ?w ! j)" by (rule noown)
  qed
  have 3: "pending_handle ?w"
    unfolding pending_handle_def
  proof (intro allI impI)
    fix q assume q: "q < length (promises ?w)" and e: "promises ?w ! q = Pending"
    have "\<not> q < ?n"
    proof
      assume l: "q < ?n"
      with e ps have "promises w ! q = Pending" by (simp add: nth_append)
      with idle_no_pending [OF inv idle l] show False by simp
    qed
    with q ps have "q = ?n" by simp
    with th show "tokenPromise (this ?w) = Some q" by simp
  qed
  have 4: "handle_ref ?w" using th ps by (simp add: handle_ref_def)
  have 5: "shared_ref ?w"
    unfolding shared_ref_def
  proof (intro allI impI)
    fix i p assume i: "i < length (calls ?w)" and e: "calls ?w ! i = AwaitShared p"
    have "i < length (calls w)"
    proof (rule ccontr)
      assume "\<not> i < length (calls w)"
      with last [OF i] have "i = length (calls w)" by simp
      with e cs show False by simp
    qed
    with e nth have "calls w ! i = AwaitShared p" "i < length (calls w)" by simp_all
    with inv have "p < ?n" by (simp add: invariant_def shared_ref_def)
    with ps show "p < length (promises ?w)" by simp
  qed
  from 1 2 3 4 5 show ?thesis by (simp only: invariant_def simp_thms)
qed

lemma invariant_call:
  assumes "invariant w" shows "invariant (getToken_call w)"
proof (cases "tokenPromise (this w)")
  case (Some p)
  from assms Some have "p < length (promises w)" by (simp add: invariant_def handle_ref_def)
  then have "invariant (w\<lparr>calls := calls w @ [AwaitShared p]\<rparr>)"
    by (intro invariant_append [OF assms]) simp_all
  with Some show ?thesis by (simp add: getToken_call_cases)
next
  case None
  show ?thesis
  proof (cases "token_valid (token (this w)) (clock w)")
    case True
    have "invariant (w\<lparr>calls := calls w @ [Done (Inr (accessToken (the (token (this w)))))]\<rparr>)"
      by (intro invariant_append [OF assms]) simp_all
    with None True show ?thesis by (simp add: getToken_call_cases)
  next
    case False
    with None assms show ?thesis by (simp add: getToken_call_cases invariant_refresh)
  qed
qed

lemma invariant_settle_promise:
  assumes inv: "invariant w" and x: "x \<noteq> Pending"
  shows "invariant (w\<lparr>promises := (promises w)[p := x]\<rparr>)"
proof -
  let ?w = "w\<lparr>promises := (promises w)[p := x]\<rparr>"
  have 3: "pending_handle ?w"
    unfolding pending_handle_def
  proof (intro allI impI)
    fix q assume q: "q < length (promises ?w)" and e: "promises ?w ! q = Pending"
    from q have ql: "q < length (promises w)" by simp
    have "q \<noteq> p" using e x ql by auto
    with e have "promises w ! q = Pending" by simp
    with inv ql show "tokenPromise (this ?w) = Some q" by (simp add: invariant_def pending_handle_def)
  qed
  have 1: "own_handle ?w" using inv by (simp add: invariant_def own_handle_def)
  have 2: "own_unique ?w" using inv by (simp add: invariant_def own_unique_def)
  have 4: "handle_ref ?w" using inv by (simp add: invariant_def handle_ref_def)
  have 5: "shared_ref ?w" using inv by (simp add: invariant_def shared_ref_def)
  from 1 2 3 4 5 show ?thesis by (simp only: invariant_def simp_thms)
qed

lemma invariant_response:
  assumes "invariant w" "requestToken_resume p r w = Some w'" shows "invariant w'"
proof -
  let ?x = "case r of Inl cause \<Rightarrow> Rejected (AxiosError cause)
              | Inr d \<Rightarrow> Fulfilled (token_of_response (this w) (clock w) d)"
  have "?x \<noteq> Pending" by (cases r) simp_all
  then have "invariant (w\<lparr>promises := (promises w)[p := ?x]\<rparr>)"
    by (rule invariant_settle_promise [OF assms(1)])
  moreover from assms(2) have "w' = w\<lparr>promises := (promises w)[p := ?x]\<rparr>"
    by (simp add: requestToken_resume_Some)
  ultimately show ?thesis by simp
qed

lemma invariant_settle_call:
  assumes inv: "invariant w" and i: "i < length (calls w)"
    and c': "this w' = this w \<or> (is_own (calls w ! i) \<and> tokenPromise (this w') = None)"
    and ps: "promises w' = promises w" and cs: "calls w' = (calls w)[i := Done r]"
    and set: "is_own (calls w ! i) \<Longrightarrow> \<forall>q<length (promises w). promises w ! q \<noteq> Pending"
  shows "invariant w'"
proof -
  have other: "\<And>j. j < length (calls w) \<Longrightarrow> j \<noteq> i \<Longrightarrow> calls w' ! j = calls w ! j"
    by (simp add: cs)
  have self: "calls w' ! i = Done r" using i by (simp add: cs)
  have len: "length (calls w') = length (calls w)" by (simp add: cs)
  have uniq: "\<And>j. j < length (calls w) \<Longrightarrow> j \<noteq> i \<Longrightarrow> is_own (calls w ! i) \<Longrightarrow> \<not> is_own (calls w ! j)"
  proof -
    fix j assume j: "j < length (calls w)" "j \<noteq> i" "is_own (calls w ! i)"
    from inv have "own_unique w" by (simp add: invariant_def)
    with i j show "\<not> is_own (calls w ! j)" unfolding own_unique_def by blast
  qed
  have 1: "own_handle w'"
    unfolding own_handle_def
  proof (intro allI impI)
    fix j p assume j: "j < length (calls w')" and e: "calls w' ! j = AwaitOwn p"
    from j len have jl: "j < length (calls w)" by simp
    have ne: "j \<noteq> i" using e self by auto
    with other [OF jl] e have o: "calls w ! j = AwaitOwn p" by simp
    with inv jl have h: "tokenPromise (this w) = Some p" by (simp add: invariant_def own_handle_def)
    from uniq [OF jl ne] o have "\<not> is_own (calls w ! i)" by auto
    with c' h show "tokenPromise (this w') = Some p" by auto
  qed
  have 2: "own_unique w'"
    unfolding own_unique_def
  proof (intro allI impI)
    fix j k assume j: "j < length (calls w')" and k: "k < length (calls w')" and ne: "j \<noteq> k"
      and oj: "is_own (calls w' ! j)"
    from j k len have jl: "j < length (calls w)" and kl: "k < length (calls w)" by simp_all
    have ji: "j \<noteq> i" using oj self by auto
    with other [OF jl] oj have oj': "is_own (calls w ! j)" by simp
    show "\<not> is_own (calls w' ! k)"
    proof (cases "k = i")
      case True
      with self show ?thesis by simp
    next
      case False
      from inv have "own_unique w" by (simp add: invariant_def)
      with jl kl ne oj' have "\<not> is_own (calls w ! k)" unfolding own_unique_def by blast
      with other [OF kl False] show ?thesis by simp
    qed
  qed
  have 3: "pending_handle w'"
    unfolding pending_handle_def
  proof (intro allI impI)
    fix q assume q: "q < length (promises w')" and e: "promises w' ! q = Pending"
    from q e ps have ql: "q < length (promises w)" and e': "promises w ! q = Pending" by simp_all
    with set have "\<not> is_own (calls w ! i)" by auto
    with c' have "this w' = this w" by simp
    moreover from inv ql e' have "tokenPromise (this w) = Some q"
      by (simp add: invariant_def pending_handle_def)
    ultimately show "tokenPromise (this w') = Some q" by simp
  qed
  have 4: "handle_ref w'"
    unfolding handle_ref_def
  proof (intro allI impI)
    fix p assume h: "tokenPromise (this w') = Some p"
    with c' have "this w' = this w" by auto
    with h inv ps show "p < length (promises w')" by (simp add: invariant_def handle_ref_def)
  qed
  have 5: "shared_ref w'"
    unfolding shared_ref_def
  proof (intro allI impI)
    fix j p assume j: "j < length (calls w')" and e: "calls w' ! j = AwaitShared p"
    from j len have jl: "j < length (calls w)" by simp
    have ne: "j \<noteq> i" using e self by auto
    with other [OF jl] e have "calls w ! j = AwaitShared p" by simp
    with inv jl ps show "p < length (promises w')" by (simp add: invariant_def shared_ref_def)
  qed
  from 1 2 3 4 5 show ?thesis by (simp only: invariant_def simp_thms)
qed

lemma invariant_resume:
  assumes inv: "invariant w" and st: "getToken_resume i w = Some w'" shows "invariant w'"
  using st
proof (cases rule: getToken_resume_Some)
  case (shared p r)
  show ?thesis
  proof (rule invariant_settle_call [OF inv shared(1)])
    show "this w' = this w \<or> (is_own (calls w ! i) \<and> tokenPromise (this w') = None)"
      by (simp add: shared)
    show "promises w' = promises w" "calls w' = (calls w)[i := Done r]"
      by (simp_all add: shared)
    show "is_own (calls w ! i) \<Longrightarrow> \<forall>q<length (promises w). promises w ! q \<noteq> Pending"
      by (simp add: shared)
  qed
next
  case (own p r)
  from inv own(1,2) have h: "tokenPromise (this w) = Some p"
    by (simp add: invariant_def own_handle_def)
  have np: "promises w ! p \<noteq> Pending" using own(4) by (rule outcome_Some_not_Pending)
  have nopend: "\<forall>q<length (promises w). promises w ! q \<noteq> Pending"
  proof (intro allI impI notI)
    fix q assume "q < length (promises w)" "promises w ! q = Pending"
    with inv have "tokenPromise (this w) = Some q" by (simp add: invariant_def pending_handle_def)
    with h have "q = p" by simp
    with \<open>promises w ! q = Pending\<close> np show False by simp
  qed
  show ?thesis
  proof (rule invariant_settle_call [OF inv own(1)])
    show "this w' = this w \<or> (is_own (calls w ! i) \<and> tokenPromise (this w') = None)"
      by (simp add: own)
    show "promises w' = promises w" "calls w' = (calls w)[i := Done r]"
      by (simp_all add: own)
    show "is_own (calls w ! i) \<Longrightarrow> \<forall>q<length (promises w). promises w ! q \<noteq> Pending"
      using nopend by simp
  qed
qed

lemma invariant_step: 
  assumes "invariant w" "step e w = Some w'" shows "invariant w'"
proof (cases e)
  case Call
  with assms show ?thesis using invariant_call by auto
next
  case (Response p r)
  with assms show ?thesis using invariant_response by auto
next
  case (Resume i)
  with assms show ?thesis using invariant_resume by auto
next
  case (Tick d)
  with assms show ?thesis using invariant_clock by auto
qed

lemma invariant_run: "invariant w \<Longrightarrow> run es w = Some w' \<Longrightarrow> invariant w'"
proof (induction es arbitrary: w)
  case Nil
  then show ?case by simp
next
  case (Cons e es)
  from Cons.prems(2) obtain w1 where s: "step e w = Some w1" and r: "run es w1 = Some w'"
    by (auto split: option.splits)
  from invariant_step [OF Cons.prems(1) s] r show ?case by (rule Cons.IH)
qed

section \<open>Settled promises and the number of calls\<close>

lemma step_settled:
  assumes st: "step e w = Some w'" and p: "p < length (promises w)" and np: "promises w ! p \<noteq> Pending"
  shows "p < length (promises w') \<and> promises w' ! p = promises w ! p"
proof (cases e)
  case Call
  with st have w': "w' = getToken_call w" by simp
  show ?thesis
  proof (cases "tokenPromise (this w) = None \<and> \<not> token_valid (token (this w)) (clock w)")
    case True
    with w' have "promises w' = promises w @ [refresh_promise (this w)]"
      by (simp add: getToken_call_cases getToken_refresh_eq)
    with p show ?thesis by (simp add: nth_append)
  next
    case False
    with w' have "promises w' = promises w"
      by (auto simp: getToken_call_cases split: option.splits)
    with p show ?thesis by simp
  qed
next
  case (Response q r)
  with st have q: "promises w ! q = Pending"
    and w': "promises w' = (promises w)[q := (case r of Inl cause \<Rightarrow> Rejected (AxiosError cause)
                | Inr d \<Rightarrow> Fulfilled (token_of_response (this w) (clock w) d))]"
    by (simp_all add: requestToken_resume_Some)
  from q np have "q \<noteq> p" by auto
  with w' p show ?thesis by simp
next
  case (Resume i)
  with st have "getToken_resume i w = Some w'" by simp
  then have "promises w' = promises w" by (cases rule: getToken_resume_Some) simp_all
  with p show ?thesis by simp
next
  case (Tick d)
  with st have "promises w' = promises w" by auto
  with p show ?thesis by simp
qed

lemma run_settled:
  "run es w = Some w' \<Longrightarrow> p < length (promises w) \<Longrightarrow> promises w ! p \<noteq> Pending \<Longrightarrow>
     p < length (promises w') \<and> promises w' ! p = promises w ! p"
proof (induction es arbitrary: w)
  case Nil
  then show ?case by simp
next
  case (Cons e es)
  from Cons.prems(1) obtain w1 where s: "step e w = Some w1" and r: "run es w1 = Some w'"
    by (auto split: option.splits)
  from step_settled [OF s Cons.prems(2,3)]
  have 1: "p < length (promises w1)" and 2: "promises w1 ! p = promises w ! p" by simp_all
  from 2 Cons.prems(3) have 3: "promises w1 ! p \<noteq> Pending" by simp
  from Cons.IH [OF r 1 3] 2 show ?case by simp
qed

lemma step_calls_length:
  assumes "step e w = Some w'"
  shows "length (calls w') = length (calls w) + (if e = Call then 1 else 0)"
proof (cases e)
  case Call
  with assms have "w' = getToken_call w" by simp
  with getToken_call_calls [of w] Call show ?thesis by auto
next
  case (Response q r)
  with assms show ?thesis by (simp add: requestToken_resume_Some)
next
  case (Resume i)
  with assms have "getToken_resume i w = Some w'" by simp
  then have "length (calls w') = length (calls w)"
    by (cases rule: getToken_resume_Some) simp_all
  with Resume show ?thesis by simp
next
  case (Tick d)
  with assms show ?thesis by auto
qed

lemma run_calls_length:
  "run es w = Some w' \<Longrightarrow> length (calls w') = length (calls w) + count_list es Call"
proof (induction es arbitrary: w)
  case Nil
  then show ?case by simp
next
  case (Cons e es)
  from Cons.prems obtain w1 where s: "step e w = Some w1" and r: "run es w1 = Some w'"
    by (auto split: option.splits)
  from Cons.IH [OF r] step_calls_length [OF s] show ?case by simp
qed

lemma step_frame:
  assumes "step e w = Some w'"
  shows "config (this w') = config (this w) \<and> axios (this w') = axios (this w)"
proof (cases e)
  case Call
  with assms have "w' = getToken_call w" by simp
  then show ?thesis
    by (simp add: getToken_call_cases getToken_refresh_eq split: option.splits)
next
  case (Response p r)
  with assms show ?thesis by (simp add: requestToken_resume_Some)
next
  case (Resume i)
  with assms have "getToken_resume i w = Some w'" by simp
  then show ?thesis by (cases rule: getToken_resume_Some) simp_all
next
  case (Tick d)
  with assms show ?thesis by auto
qed

section \<open>While the clock is not set back\<close>

text \<open>
  The freshness test is monotone in the clock on the time values of \<open>date_range\<close>,
  so \<open>stale_handle\<close> holds along every run that does not set the clock back.
\<close>

lemma token_valid_mono:
  assumes "\<not> token_valid tk t" and "t \<le> t'" and "date_range t" and "date_range t'"
  shows "\<not> token_valid tk t'"
proof (cases tk)
  case None
  then show ?thesis by (simp add: token_valid_def)
next
  case (Some k)
  with assms(1,3) have a: "\<not> js_gt (expiresAt k) (Num (t + 60000))"
    by (simp add: token_valid_def deadline_exact)
  have "\<not> js_gt (expiresAt k) (Num (t' + 60000))"
  proof (cases "expiresAt k")
    case (Num e)
    with a assms(2) show ?thesis by simp
  next
    case PosInf
    with a show ?thesis by simp
  next
    case NegInf
    then show ?thesis by simp
  next
    case NaN
    then show ?thesis by simp
  qed
  with Some assms(4) show ?thesis by (simp add: token_valid_def deadline_exact)
qed

lemma stale_handle_step:
  assumes st: "stale_handle w" and s: "step e w = Some w'" and f: "forward e"
    and r: "date_range (clock w)" and r': "date_range (clock w')"
  shows "stale_handle w'"
proof (cases e)
  case Call
  with s have w': "w' = getToken_call w" by simp
  show ?thesis
  proof (cases "tokenPromise (this w)")
    case (Some p)
    with st show ?thesis by (simp add: w' getToken_call_cases stale_handle_def)
  next
    case None
    show ?thesis
    proof (cases "token_valid (token (this w)) (clock w)")
      case True
      with None show ?thesis by (simp add: w' getToken_call_cases stale_handle_def)
    next
      case False
      with None show ?thesis
        by (simp add: w' getToken_call_cases getToken_refresh_eq stale_handle_def)
    qed
  qed
next
  case (Response p x)
  with s st show ?thesis by (simp add: requestToken_resume_Some stale_handle_def)
next
  case (Resume i)
  with s have "getToken_resume i w = Some w'" by simp
  then show ?thesis
  proof (cases rule: getToken_resume_Some)
    case (shared p x)
    with st show ?thesis by (simp add: stale_handle_def)
  next
    case (own p x)
    then show ?thesis by (simp add: stale_handle_def)
  qed
next
  case (Tick d)
  with s have w': "w' = w\<lparr>clock := clock w + d\<rparr>" by auto
  from Tick f have d: "clock w \<le> clock w + d" by (simp add: forward_def)
  from r' have r2: "date_range (clock w + d)" by (simp add: w')
  show ?thesis
    unfolding stale_handle_def
  proof
    assume "tokenPromise (this w') \<noteq> None"
    then have "tokenPromise (this w) \<noteq> None" by (simp add: w')
    with st have "\<not> token_valid (token (this w)) (clock w)" by (simp add: stale_handle_def)
    then have "\<not> token_valid (token (this w)) (clock w + d)"
      using d r r2 by (rule token_valid_mono)
    then show "\<not> token_valid (token (this w')) (clock w')" by (simp add: w')
  qed
qed

lemma step_clock_forward:
  assumes "step e w = Some w'" "forward e" shows "clock w \<le> clock w'"
proof (cases e)
  case Call
  with assms have "w' = getToken_call w" by simp
  then show ?thesis
    by (simp add: getToken_call_cases getToken_refresh_eq split: option.splits)
next
  case (Response p x)
  with assms show ?thesis by (simp add: requestToken_resume_Some)
next
  case (Resume i)
  with assms have "getToken_resume i w = Some w'" by simp
  then show ?thesis by (cases rule: getToken_resume_Some) simp_all
next
  case (Tick d)
  with assms show ?thesis by (auto simp: forward_def)
qed

lemma run_clock_forward:
  "run es w = Some w' \<Longrightarrow> list_all forward es \<Longrightarrow> clock w \<le> clock w'"
proof (induction es arbitrary: w)
  case Nil
  then show ?case by simp
next
  case (Cons e es)
  from Cons.prems(1) obtain w1 where s: "step e w = Some w1" and r: "run es w1 = Some w'"
    by (auto split: option.splits)
  from Cons.prems(2) have f: "forward e" and fs: "list_all forward es" by simp_all
  from step_clock_forward [OF s f] Cons.IH [OF r fs] show ?case by simp
qed

lemma date_range_between: "date_range a \<Longrightarrow> date_range c \<Longrightarrow> a \<le> b \<Longrightarrow> b \<le> c \<Longrightarrow> date_range b"
  by (simp add: date_range_def)

lemma stale_handle_run:
  "stale_handle w \<Longrightarrow> run es w = Some w' \<Longrightarrow> list_all forward es \<Longrightarrow>
     date_range (clock w) \<Longrightarrow> date_range (clock w') \<Longrightarrow> stale_handle w'"
proof (induction es arbitrary: w)
  case Nil
  then show ?case by simp
next
  case (Cons e es)
  from Cons.prems(2) obtain w1 where s: "step e w = Some w1" and r: "run es w1 = Some w'"
    by (auto split: option.splits)
  from Cons.prems(3) have f: "forward e" and fs: "list_all forward es" by simp_all
  have "clock w \<le> clock w1" using s f by (rule step_clock_forward)
  moreover have "clock w1 \<le> clock w'" using r fs by (rule run_clock_forward)
  ultimately have r1: "date_range (clock w1)"
    using Cons.prems(4,5) date_range_between by blast
  have "stale_handle w1" using Cons.prems(1) s f Cons.prems(4) r1 by (rule stale_handle_step)
  then show ?case using r fs r1 Cons.prems(5) by (rule Cons.IH)
qed

lemma stale_handle_boot: "stale_handle (boot cfg env t0)"
  by (simp add: stale_handle_def boot_def RedditClient_new_def Let_def)

lemma clock_boot: "clock (boot cfg env t0) = t0"
  by (simp add: boot_def)

section \<open>One refresh in flight\<close>

text \<open>
  While the call that started the refresh is not resumed, every event keeps the world
  \<open>in_flight\<close>; after it has been resumed, every event keeps it \<open>landed\<close>.
\<close>

lemma joined_cases:
  "joined w p j \<longleftrightarrow> calls w ! j = AwaitShared p \<or> (\<exists>r. calls w ! j = Done r \<and> outcome (promises w ! p) = Some r)"
  by (cases "calls w ! j") (auto simp: joined_def)

lemma in_flight_start:
  assumes inv: "invariant w0" and idle: "tokenPromise (this w0) = None"
    and stale: "\<not> token_valid (token (this w0)) (clock w0)"
  shows "in_flight w0 (getToken_call w0)"
proof -
  have e: "getToken_call w0 = getToken_refresh w0"
    using idle stale by (simp add: getToken_call_cases)
  have no: "\<forall>j<length (calls w0). \<not> is_own (calls (getToken_refresh w0) ! j)"
    using idle_no_owner [OF inv idle] by (simp add: getToken_refresh_eq nth_append)
  have jn: "\<forall>j<length (calls (getToken_refresh w0)). length (calls w0) < j \<longrightarrow>
      joined (getToken_refresh w0) (length (promises w0)) j"
    by (simp add: getToken_refresh_eq)
  show ?thesis
    unfolding in_flight_def e using no jn by (simp add: getToken_refresh_eq)
qed

lemma in_flight_step:
  assumes fl: "in_flight w0 w" and st: "step e w = Some w'" and ne: "e \<noteq> Resume (length (calls w0))"
  shows "in_flight w0 w'"
proof -
  let ?n = "length (calls w0)" and ?p = "length (promises w0)"
  from fl have h: "tokenPromise (this w) = Some ?p" and lp: "length (promises w) = Suc ?p"
    and po: "posts w = posts w0 @ refresh_posts (this w0)" and ln: "?n < length (calls w)"
    and ow: "calls w ! ?n = AwaitOwn ?p"
    and old: "\<And>j. j < ?n \<Longrightarrow> \<not> is_own (calls w ! j)"
    and new: "\<And>j. j < length (calls w) \<Longrightarrow> ?n < j \<Longrightarrow> joined w ?p j"
    by (simp_all add: in_flight_def)
  show ?thesis
  proof (cases e)
    case Call
    with st h have w': "w' = w\<lparr>calls := calls w @ [AwaitShared ?p]\<rparr>"
      by (simp add: getToken_call_cases)
    have "\<forall>j<length (calls w'). ?n < j \<longrightarrow> joined w' ?p j"
    proof (intro allI impI)
      fix j assume j: "j < length (calls w')" and nj: "?n < j"
      show "joined w' ?p j"
      proof (cases "j < length (calls w)")
        case True
        with new [OF True nj] show ?thesis by (simp add: w' joined_cases nth_append)
      next
        case False
        with j have "j = length (calls w)" by (simp add: w')
        then show ?thesis by (simp add: w' joined_cases)
      qed
    qed
    moreover have "\<forall>j<?n. \<not> is_own (calls w' ! j)"
      using old ln by (simp add: w' nth_append)
    ultimately show ?thesis
      unfolding in_flight_def using h lp po ln ow by (simp add: w' nth_append)
  next
    case (Response q r)
    let ?x = "case r of Inl cause \<Rightarrow> Rejected (AxiosError cause)
                | Inr d \<Rightarrow> Fulfilled (token_of_response (this w) (clock w) d)"
    from st Response have q: "q < length (promises w)" and pq: "promises w ! q = Pending"
      and w': "w' = w\<lparr>promises := (promises w)[q := ?x]\<rparr>"
      by (simp_all add: requestToken_resume_Some)
    have "\<forall>j<length (calls w'). ?n < j \<longrightarrow> joined w' ?p j"
    proof (intro allI impI)
      fix j assume j: "j < length (calls w')" and nj: "?n < j"
      from j have jl: "j < length (calls w)" by (simp add: w')
      from new [OF jl nj] have "calls w ! j = AwaitShared ?p \<or>
          (\<exists>r. calls w ! j = Done r \<and> outcome (promises w ! ?p) = Some r)"
        by (simp add: joined_cases)
      then show "joined w' ?p j"
      proof
        assume "calls w ! j = AwaitShared ?p"
        then show ?thesis by (simp add: w' joined_cases)
      next
        assume "\<exists>r. calls w ! j = Done r \<and> outcome (promises w ! ?p) = Some r"
        then obtain r' where d: "calls w ! j = Done r'" and o: "outcome (promises w ! ?p) = Some r'"
          by blast
        from o have "promises w ! ?p \<noteq> Pending" by (rule outcome_Some_not_Pending)
        with pq have "q \<noteq> ?p" by auto
        with d o show ?thesis by (simp add: w' joined_cases)
      qed
    qed
    then show ?thesis
      unfolding in_flight_def using h lp po ln ow old by (simp add: w')
  next
    case (Resume i)
    with ne have ine: "i \<noteq> ?n" by simp
    from st Resume have "getToken_resume i w = Some w'" by simp
    then show ?thesis
    proof (cases rule: getToken_resume_Some)
      case (shared q r)
      have rq: "?n < i \<Longrightarrow> q = ?p"
      proof -
        assume "?n < i"
        from new [OF shared(1) this] shared(2) show "q = ?p" by (simp add: joined_cases)
      qed
      have "\<forall>j<length (calls w'). ?n < j \<longrightarrow> joined w' ?p j"
      proof (intro allI impI)
        fix j assume j: "j < length (calls w')" and nj: "?n < j"
        from j have jl: "j < length (calls w)" by (simp add: shared)
        show "joined w' ?p j"
        proof (cases "j = i")
          case True
          with nj rq shared(4) jl show ?thesis by (simp add: shared(5) joined_cases)
        next
          case False
          with new [OF jl nj] show ?thesis by (simp add: shared(5) joined_cases)
        qed
      qed
      moreover have "\<forall>j<?n. \<not> is_own (calls w' ! j)"
      proof (intro allI impI)
        fix j assume "j < ?n"
        with old [of j] ln show "\<not> is_own (calls w' ! j)"
          by (cases "j = i") (simp_all add: shared(5))
      qed
      ultimately show ?thesis
        unfolding in_flight_def using h lp po ln ow ine by (simp add: shared(5))
    next
      case (own q r)
      have False
      proof (cases "i < ?n")
        case True
        from old [OF True] own(2) show False by simp
      next
        case False
        with ine have "?n < i" by simp
        from new [OF own(1) this] own(2) show False by (simp add: joined_cases)
      qed
      then show ?thesis ..
    qed
  next
    case (Tick d)
    with st have w': "w' = w\<lparr>clock := clock w + d\<rparr>" by auto
    have "\<forall>j<length (calls w'). ?n < j \<longrightarrow> joined w' ?p j"
      using new by (simp add: w' joined_cases)
    then show ?thesis
      unfolding in_flight_def using h lp po ln ow old by (simp add: w')
  qed
qed

lemma in_flight_run:
  "in_flight w0 w \<Longrightarrow> run es w = Some w' \<Longrightarrow> Resume (length (calls w0)) \<notin> set es \<Longrightarrow>
     in_flight w0 w'"
proof (induction es arbitrary: w)
  case Nil
  then show ?case by simp
next
  case (Cons e es)
  from Cons.prems(2) obtain w1 where s: "step e w = Some w1" and r: "run es w1 = Some w'"
    by (auto split: option.splits)
  from Cons.prems(3) have ne: "e \<noteq> Resume (length (calls w0))"
    and rest: "Resume (length (calls w0)) \<notin> set es" by auto
  from in_flight_step [OF Cons.prems(1) s ne] r rest show ?case by (rule Cons.IH)
qed

lemma landed_start:
  assumes fl: "in_flight w0 w1" and st: "step (Resume (length (calls w0))) w1 = Some w"
  shows "\<exists>r. landed (length (calls w0)) (length (calls w1)) (length (promises w0)) r w"
proof -
  let ?n = "length (calls w0)" and ?p = "length (promises w0)"
  from fl have ow: "calls w1 ! ?n = AwaitOwn ?p" and ln: "?n < length (calls w1)"
    and new: "\<And>j. j < length (calls w1) \<Longrightarrow> ?n < j \<Longrightarrow> joined w1 ?p j"
    by (simp_all add: in_flight_def)
  from st have "getToken_resume ?n w1 = Some w" by simp
  then show ?thesis
  proof (cases rule: getToken_resume_Some)
    case (shared q r)
    with ow show ?thesis by simp
  next
    case (own q r)
    with ow have q: "q = ?p" by simp
    have ps: "promises w = promises w1" and cs: "calls w = (calls w1)[?n := Done r]"
      by (simp_all add: own(5))
    have "\<forall>j<length (calls w1). ?n \<le> j \<longrightarrow> calls w ! j = AwaitShared ?p \<or> calls w ! j = Done r"
    proof (intro allI impI)
      fix j assume j: "j < length (calls w1)" and nj: "?n \<le> j"
      show "calls w ! j = AwaitShared ?p \<or> calls w ! j = Done r"
      proof (cases "j = ?n")
        case True
        with ln show ?thesis by (simp add: cs)
      next
        case False
        with nj have "?n < j" by simp
        from new [OF j this] own(4) q have "calls w1 ! j = AwaitShared ?p \<or> calls w1 ! j = Done r"
          by (auto simp: joined_cases)
        with False show ?thesis by (simp add: cs)
      qed
    qed
    with own(3,4) q ps cs have "landed ?n (length (calls w1)) ?p r w"
      by (simp add: landed_def)
    then show ?thesis ..
  qed
qed

lemma landed_step:
  assumes la: "landed n0 n1 p r w" and st: "step e w = Some w'"
  shows "landed n0 n1 p r w'"
proof -
  from la have p: "p < length (promises w)" and o: "outcome (promises w ! p) = Some r"
    and n1: "n1 \<le> length (calls w)"
    and win: "\<And>j. j < n1 \<Longrightarrow> n0 \<le> j \<Longrightarrow> calls w ! j = AwaitShared p \<or> calls w ! j = Done r"
    by (simp_all add: landed_def)
  from o have np: "promises w ! p \<noteq> Pending" by (rule outcome_Some_not_Pending)
  from step_settled [OF st p np] o
  have p': "p < length (promises w')" and o': "outcome (promises w' ! p) = Some r" by simp_all
  from step_calls_length [OF st] n1 have n1': "n1 \<le> length (calls w')" by simp
  have "\<forall>j<n1. n0 \<le> j \<longrightarrow> calls w' ! j = AwaitShared p \<or> calls w' ! j = Done r"
  proof (intro allI impI)
    fix j assume j: "j < n1" and nj: "n0 \<le> j"
    from j n1 have jl: "j < length (calls w)" by simp
    note old = win [OF j nj]
    show "calls w' ! j = AwaitShared p \<or> calls w' ! j = Done r"
    proof (cases e)
      case Call
      with st have "w' = getToken_call w" by simp
      with getToken_call_calls [of w] obtain a where "calls w' = calls w @ [a]" by auto
      with jl old show ?thesis by (simp add: nth_append)
    next
      case (Response q x)
      with st have "calls w' = calls w" by (simp add: requestToken_resume_Some)
      with old show ?thesis by simp
    next
      case (Resume i)
      with st have "getToken_resume i w = Some w'" by simp
      then show ?thesis
      proof (cases rule: getToken_resume_Some)
        case (shared q r')
        show ?thesis
        proof (cases "j = i")
          case True
          with old shared(2) have "q = p" by simp
          with shared(4) o have "r' = r" by simp
          with True jl show ?thesis by (simp add: shared(5))
        next
          case False
          with old show ?thesis by (simp add: shared(5))
        qed
      next
        case (own q r')
        from old own(2) have "j \<noteq> i" by auto
        with old show ?thesis by (simp add: own(5))
      qed
    next
      case (Tick d)
      with st have "calls w' = calls w" by auto
      with old show ?thesis by simp
    qed
  qed
  with p' o' n1' show ?thesis by (simp add: landed_def)
qed

lemma landed_run: "landed n0 n1 p r w \<Longrightarrow> run es w = Some w' \<Longrightarrow> landed n0 n1 p r w'"
proof (induction es arbitrary: w)
  case Nil
  then show ?case by simp
next
  case (Cons e es)
  from Cons.prems(2) obtain w1 where s: "step e w = Some w1" and r: "run es w1 = Some w'"
    by (auto split: option.splits)
  from landed_step [OF Cons.prems(1) s] r show ?case by (rule Cons.IH)
qed

section \<open>The claims\<close>

subsection \<open>C1: concurrent calls share one refresh\<close>

text \<open>
  Claim C1 says that N concurrent calls of \<^verbatim>\<open>getToken()\<close> issued while no valid
  token is cached make exactly one network call and all resolve to the same access
  token. With no refresh token and no username and password (an empty process
  environment), two concurrent calls make no network call at all and both fail with
  the error of line 97.
\<close>

theorem getToken_no_credentials_no_post:
  "map_option posts (run [Call, Call, Resume 0, Resume 1] (boot None Map.empty 0)) = Some [] \<and>
   map_option calls (run [Call, Call, Resume 0, Resume 1] (boot None Map.empty 0)) =
     Some [Done (Inl ConfigurationError), Done (Inl ConfigurationError)]"
  by (simp add: run_defs)

text \<open>
  Claim C1, amended. Let \<open>w0\<close> be a reachable world with no refresh in flight and no
  valid token cached. A call of \<^verbatim>\<open>getToken()\<close> is made, then any events \<open>es1\<close>
  happen (further calls among them) before the first call is resumed, giving \<open>w1\<close>;
  then the first call is resumed and any events \<open>es2\<close> happen, giving \<open>w2\<close>. Then:
  \<^item> during \<open>es1\<close> at most one request was posted to the authorization endpoint:
    exactly one when a grant is available, none when line 97 throws;
  \<^item> exactly one promise was allocated, and \<open>tokenPromise\<close> holds it during the
    whole of \<open>es1\<close>: no second refresh started;
  \<^item> the number of calls made is one more than the number of \<open>Call\<close> events in
    \<open>es1\<close>;
  \<^item> the promise has settled with one outcome \<open>r\<close> (the same access token, or the
    same error), and each of these calls has settled with \<open>r\<close> in \<open>w2\<close> or is
    still suspended on that promise and settles with \<open>r\<close> when resumed.
\<close>

theorem getToken_single_flight:
  assumes reach: "run es0 (boot cfg env t0) = Some w0"
    and idle: "tokenPromise (this w0) = None"
    and stale: "\<not> token_valid (token (this w0)) (clock w0)"
    and r1: "run (Call # es1) w0 = Some w1"
    and nores: "Resume (length (calls w0)) \<notin> set es1"
    and r2: "run (Resume (length (calls w0)) # es2) w1 = Some w2"
  shows "posts w1 = posts w0 @ (case grant_data (this w0) of Inl e \<Rightarrow> []
                                | Inr d \<Rightarrow> [token_post (this w0) d]) \<and>
         length (promises w1) = Suc (length (promises w0)) \<and>
         tokenPromise (this w1) = Some (length (promises w0)) \<and>
         length (calls w1) = length (calls w0) + Suc (count_list es1 Call) \<and>
         (\<exists>r. outcome (promises w2 ! length (promises w0)) = Some r \<and>
            (\<forall>j<length (calls w1). length (calls w0) \<le> j \<longrightarrow>
               calls w2 ! j = Done r \<or>
               (calls w2 ! j = AwaitShared (length (promises w0)) \<and>
                step (Resume j) w2 = Some (w2\<lparr>calls := (calls w2)[j := Done r]\<rparr>))))"
proof -
  let ?n = "length (calls w0)" and ?p = "length (promises w0)"
  have inv: "invariant w0" using invariant_boot reach by (rule invariant_run)
  from r1 have r1': "run es1 (getToken_call w0) = Some w1" by simp
  have "in_flight w0 (getToken_call w0)" using inv idle stale by (rule in_flight_start)
  then have fl: "in_flight w0 w1" using r1' nores by (rule in_flight_run)
  then have a: "posts w1 = posts w0 @ refresh_posts (this w0)"
    and b: "length (promises w1) = Suc ?p" and c: "tokenPromise (this w1) = Some ?p"
    by (simp_all add: in_flight_def)
  from run_calls_length [OF r1] have d: "length (calls w1) = ?n + Suc (count_list es1 Call)"
    by simp
  from r2 obtain w where s: "step (Resume ?n) w1 = Some w" and r2': "run es2 w = Some w2"
    by (auto split: option.splits)
  from landed_start [OF fl s] obtain r where "landed ?n (length (calls w1)) ?p r w" ..
  then have la: "landed ?n (length (calls w1)) ?p r w2" using r2' by (rule landed_run)
  then have p: "?p < length (promises w2)" and o: "outcome (promises w2 ! ?p) = Some r"
    and n1: "length (calls w1) \<le> length (calls w2)"
    and win: "\<And>j. j < length (calls w1) \<Longrightarrow> ?n \<le> j \<Longrightarrow>
        calls w2 ! j = AwaitShared ?p \<or> calls w2 ! j = Done r"
    by (simp_all add: landed_def)
  have "\<forall>j<length (calls w1). ?n \<le> j \<longrightarrow>
               calls w2 ! j = Done r \<or>
               (calls w2 ! j = AwaitShared ?p \<and>
                step (Resume j) w2 = Some (w2\<lparr>calls := (calls w2)[j := Done r]\<rparr>))"
  proof (intro allI impI)
    fix j assume j: "j < length (calls w1)" and nj: "?n \<le> j"
    from j n1 have jl: "j < length (calls w2)" by simp
    from win [OF j nj] show "calls w2 ! j = Done r \<or>
               (calls w2 ! j = AwaitShared ?p \<and>
                step (Resume j) w2 = Some (w2\<lparr>calls := (calls w2)[j := Done r]\<rparr>))"
    proof
      assume sh: "calls w2 ! j = AwaitShared ?p"
      from resume_shared [OF jl sh p o] sh show ?thesis by simp
    next
      assume "calls w2 ! j = Done r"
      then show ?thesis by simp
    qed
  qed
  with o have e: "\<exists>r. outcome (promises w2 ! ?p) = Some r \<and>
            (\<forall>j<length (calls w1). ?n \<le> j \<longrightarrow>
               calls w2 ! j = Done r \<or>
               (calls w2 ! j = AwaitShared ?p \<and>
                step (Resume j) w2 = Some (w2\<lparr>calls := (calls w2)[j := Done r]\<rparr>)))"
    by blast
  from a have a': "posts w1 = posts w0 @ (case grant_data (this w0) of Inl e \<Rightarrow> []
                                | Inr d \<Rightarrow> [token_post (this w0) d])"
    by (simp add: refresh_posts_def)
  from a' b c d e show ?thesis by (intro conjI)
qed

text \<open>
  Three concurrent calls with a password grant: one post, one promise, and the three
  calls get \<open>''AT1''\<close>, the third one when it is resumed.
\<close>

theorem getToken_single_flight_witness:
  "\<exists>w1 w2. run (Call # [Call, Response 0 (Inr resp_AT1), Call]) (boot (Some cfg_password) Map.empty 0) = Some w1 \<and>
     run (Resume 0 # [Resume 1]) w1 = Some w2 \<and>
     length (posts w1) = 1 \<and> length (promises w1) = 1 \<and> length (calls w1) = 3 \<and>
     calls w2 ! 0 = Done (Inr ''AT1'') \<and> calls w2 ! 1 = Done (Inr ''AT1'') \<and>
     calls w2 ! 2 = AwaitShared 0 \<and>
     step (Resume 2) w2 = Some (w2\<lparr>calls := (calls w2)[2 := Done (Inr ''AT1'')]\<rparr>)"
proof -
  let ?w0 = "boot (Some cfg_password) Map.empty 0"
  have r0: "run [] ?w0 = Some ?w0" by simp
  have idle: "tokenPromise (this ?w0) = None" by (simp add: boot_def RedditClient_new_def)
  have stale: "\<not> token_valid (token (this ?w0)) (clock ?w0)"
    by (simp add: boot_def RedditClient_new_def token_valid_def)
  have len0: "length (calls ?w0) = 0" "length (promises ?w0) = 0" "posts ?w0 = []"
    by (simp_all add: boot_def)
  have g: "\<exists>d. grant_data (this ?w0) = Inr d"
    by (simp add: run_defs cfg_password_def)
  have "\<exists>w1 w2. run (Call # [Call, Response 0 (Inr resp_AT1), Call]) ?w0 = Some w1 \<and>
     run (Resume 0 # [Resume 1]) w1 = Some w2 \<and>
     calls w2 = [Done (Inr ''AT1''), Done (Inr ''AT1''), AwaitShared 0] \<and>
     outcome (promises w2 ! 0) = Some (Inr ''AT1'')"
    by (simp add: run_defs cfg_password_def resp_AT1_def outcome_def)
  then obtain w1 w2 where r1: "run (Call # [Call, Response 0 (Inr resp_AT1), Call]) ?w0 = Some w1"
    and r2: "run (Resume 0 # [Resume 1]) w1 = Some w2"
    and c2: "calls w2 = [Done (Inr ''AT1''), Done (Inr ''AT1''), AwaitShared 0]"
    and o2: "outcome (promises w2 ! 0) = Some (Inr ''AT1'')"
    by blast
  have nores: "Resume (length (calls ?w0)) \<notin> set [Call, Response 0 (Inr resp_AT1), Call]"
    by simp
  from r2 have r2': "run (Resume (length (calls ?w0)) # [Resume 1]) w1 = Some w2"
    by (simp only: len0)
  note t = getToken_single_flight [OF r0 idle stale r1 nores r2']
  from t g len0 have a: "length (posts w1) = 1" by auto
  from t len0 have b: "length (promises w1) = 1" and c: "length (calls w1) = 3" by simp_all
  from t len0 o2 have "\<forall>j<length (calls w1). 0 \<le> j \<longrightarrow> calls w2 ! j = Done (Inr ''AT1'') \<or>
      (calls w2 ! j = AwaitShared 0 \<and>
       step (Resume j) w2 = Some (w2\<lparr>calls := (calls w2)[j := Done (Inr ''AT1'')]\<rparr>))"
    by auto
  with c have "calls w2 ! 2 = Done (Inr ''AT1'') \<or>
      (calls w2 ! 2 = AwaitShared 0 \<and>
       step (Resume 2) w2 = Some (w2\<lparr>calls := (calls w2)[2 := Done (Inr ''AT1'')]\<rparr>))"
    by simp
  with c2 have d: "step (Resume 2) w2 = Some (w2\<lparr>calls := (calls w2)[2 := Done (Inr ''AT1'')]\<rparr>)"
    by simp
  from r1 r2 a b c c2 d show ?thesis by (intro exI [of _ w1] exI [of _ w2]) simp
qed

subsection \<open>C2: a fresh cached token\<close>

text \<open>
  Claim C2 says that a call of \<^verbatim>\<open>getToken()\<close> made while the cached token has
  \<open>expiresAt\<close> above the current time plus 60 seconds returns that token. Line 51
  tests \<open>tokenPromise\<close> before line 57 tests the token. Here the token \<open>''AT1''\<close>
  expires at 3600000; at that time a call starts a refresh; then the wall clock is set
  back to 1000, where \<open>''AT1''\<close> passes the test of line 57 again; the call made then
  awaits the refresh in flight and, when that refresh fails, gets its error and not
  \<open>''AT1''\<close>.
\<close>

theorem getToken_clock_set_back:
  "map_option clock
     (run [Call, Response 0 (Inr resp_AT1), Resume 0, Tick 3600000, Call, Tick (- 3599000), Call,
           Response 1 (Inl ''503''), Resume 2]
        (boot (Some cfg_password) Map.empty 0)) = Some 1000 \<and>
   map_option (token \<circ> this)
     (run [Call, Response 0 (Inr resp_AT1), Resume 0, Tick 3600000, Call, Tick (- 3599000), Call,
           Response 1 (Inl ''503''), Resume 2]
        (boot (Some cfg_password) Map.empty 0)) =
     Some (Some \<lparr> accessToken = ''AT1'', tokenType = ''bearer'', expiresIn = Some 3600,
                  RedditToken.refreshToken = None, RedditToken.scope = ''read'',
                  expiresAt = Num 3600000 \<rparr>) \<and>
   map_option calls
     (run [Call, Response 0 (Inr resp_AT1), Resume 0, Tick 3600000, Call, Tick (- 3599000), Call,
           Response 1 (Inl ''503''), Resume 2]
        (boot (Some cfg_password) Map.empty 0)) =
     Some [Done (Inr ''AT1''), AwaitOwn 1, Done (Inl (AxiosError ''503''))]"
  by (simp add: run_defs cfg_password_def resp_AT1_def)

text \<open>
  Claim C2, amended. In every world whose cached token has \<open>expiresAt\<close> greater than
  the current time plus 60000 milliseconds, a call of \<^verbatim>\<open>getToken()\<close> posts no
  request and allocates no promise. When no refresh is in flight it settles at once with
  the \<open>accessToken\<close> of the cached token and changes nothing else. When a refresh is
  in flight it suspends on the promise of that refresh. The second case needs a clock
  that was set back: in a world reached from the constructor by events that never set
  the clock back, with time values in the range of \<^verbatim>\<open>Date.now()\<close>, no refresh is
  in flight while the cached token is fresh.
\<close>

theorem getToken_cached_token:
  assumes "token (this w) = Some t"
    and "js_gt (expiresAt t) (js_add (Num (clock w)) (Num 60000))"
  shows "posts (getToken_call w) = posts w \<and> promises (getToken_call w) = promises w \<and>
         (tokenPromise (this w) = None \<longrightarrow>
            step Call w = Some (w\<lparr>calls := calls w @ [Done (Inr (accessToken t))]\<rparr>)) \<and>
         (\<forall>p. tokenPromise (this w) = Some p \<longrightarrow>
            step Call w = Some (w\<lparr>calls := calls w @ [AwaitShared p]\<rparr>)) \<and>
         (\<forall>es cfg env t0. run es (boot cfg env t0) = Some w \<and> list_all forward es \<and>
            date_range t0 \<and> date_range (clock w) \<longrightarrow> tokenPromise (this w) = None)"
proof -
  from assms have v: "token_valid (token (this w)) (clock w)" by (simp add: token_valid_def)
  have a: "tokenPromise (this w) = None \<longrightarrow>
            step Call w = Some (w\<lparr>calls := calls w @ [Done (Inr (accessToken t))]\<rparr>)"
    using assms by (simp add: getToken_call_def)
  have b: "\<forall>p. tokenPromise (this w) = Some p \<longrightarrow>
            step Call w = Some (w\<lparr>calls := calls w @ [AwaitShared p]\<rparr>)"
    by (simp add: getToken_call_def)
  have c: "posts (getToken_call w) = posts w" "promises (getToken_call w) = promises w"
    using assms by (cases "tokenPromise (this w)"; simp add: getToken_call_def)+
  have d: "\<forall>es cfg env t0. run es (boot cfg env t0) = Some w \<and> list_all forward es \<and>
            date_range t0 \<and> date_range (clock w) \<longrightarrow> tokenPromise (this w) = None"
  proof (intro allI impI, elim conjE)
    fix es cfg env t0
    assume r: "run es (boot cfg env t0) = Some w" and f: "list_all forward es"
      and r0: "date_range t0" and r1: "date_range (clock w)"
    from r0 have "date_range (clock (boot cfg env t0))" by (simp add: clock_boot)
    with stale_handle_boot r f have "stale_handle w" using r1 by (rule stale_handle_run)
    with v show "tokenPromise (this w) = None" by (auto simp: stale_handle_def)
  qed
  from a b c d show ?thesis by (intro conjI)
qed

text \<open>
  The scenario of the specification: the token obtained at time 0 expires at 3600000; a
  call 10 seconds later returns it, and the run up to it never sets the clock back.
\<close>

theorem getToken_cached_token_witness:
  "\<exists>w t. run [Call, Response 0 (Inr resp_AT1), Resume 0, Tick 10000] (boot (Some cfg_password) Map.empty 0) = Some w \<and>
     token (this w) = Some t \<and> js_gt (expiresAt t) (js_add (Num (clock w)) (Num 60000)) \<and>
     tokenPromise (this w) = None \<and>
     step Call w = Some (w\<lparr>calls := calls w @ [Done (Inr ''AT1'')]\<rparr>) \<and>
     posts (getToken_call w) = posts w"
proof -
  let ?es = "[Call, Response 0 (Inr resp_AT1), Resume 0, Tick 10000]"
  have "\<exists>w t. run ?es (boot (Some cfg_password) Map.empty 0) = Some w \<and>
     token (this w) = Some t \<and> js_gt (expiresAt t) (js_add (Num (clock w)) (Num 60000)) \<and>
     accessToken t = ''AT1'' \<and> clock w = 10000"
    by (simp add: run_defs cfg_password_def resp_AT1_def)
  then obtain w t where r: "run ?es (boot (Some cfg_password) Map.empty 0) = Some w"
    and t: "token (this w) = Some t" and e: "js_gt (expiresAt t) (js_add (Num (clock w)) (Num 60000))"
    and a: "accessToken t = ''AT1''" and c: "clock w = 10000"
    by blast
  have f: "list_all forward ?es" by (simp add: forward_def)
  have d: "date_range 0" "date_range (clock w)" by (simp_all add: c date_range_def)
  note th = getToken_cached_token [OF t e]
  from th r f d have h: "tokenPromise (this w) = None" by blast
  with th a have s: "step Call w = Some (w\<lparr>calls := calls w @ [Done (Inr ''AT1'')]\<rparr>)" by simp
  from th have p: "posts (getToken_call w) = posts w" by simp
  from r t e h s p show ?thesis by blast
qed

subsection \<open>C3: a failed refresh\<close>

text \<open>
  Claim C3 says that after a failed refresh no token is cached and the next call
  attempts a fresh refresh. The source clears \<open>tokenPromise\<close> only (line 71) and
  leaves \<open>token\<close> as it was: when the token \<open>''AT1''\<close> has expired and its refresh
  fails, \<open>''AT1''\<close> is still cached; and when the wall clock is then set back by an
  hour, the next call returns \<open>''AT1''\<close> from the cache and no third promise is
  allocated.
\<close>

theorem getToken_failure_keeps_token:
  "map_option (token \<circ> this)
     (run [Call, Response 0 (Inr resp_AT1), Resume 0, Tick 3600000, Call, Response 1 (Inl ''401''),
           Resume 1, Tick (- 3600000), Call]
        (boot (Some cfg_password) Map.empty 0)) =
   Some (Some \<lparr> accessToken = ''AT1'', tokenType = ''bearer'', expiresIn = Some 3600,
                RedditToken.refreshToken = None, RedditToken.scope = ''read'',
                expiresAt = Num 3600000 \<rparr>) \<and>
   map_option calls
     (run [Call, Response 0 (Inr resp_AT1), Resume 0, Tick 3600000, Call, Response 1 (Inl ''401''),
           Resume 1, Tick (- 3600000), Call]
        (boot (Some cfg_password) Map.empty 0)) =
   Some [Done (Inr ''AT1''), Done (Inl (AxiosError ''401'')), Done (Inr ''AT1'')] \<and>
   map_option (length \<circ> promises)
     (run [Call, Response 0 (Inr resp_AT1), Resume 0, Tick 3600000, Call, Response 1 (Inl ''401''),
           Resume 1, Tick (- 3600000), Call]
        (boot (Some cfg_password) Map.empty 0)) = Some 2"
  by (simp add: run_defs cfg_password_def resp_AT1_def)

text \<open>
  Claim C3, amended. In a reachable world where the promise \<open>p\<close> of the refresh in
  flight has been rejected with \<open>e\<close> and call \<open>i\<close> is the one that started it:
  \<^item> every call suspended on \<open>p\<close>, now or in any later world, settles with the
    same error \<open>e\<close> when it is resumed;
  \<^item> resuming call \<open>i\<close> settles it with \<open>e\<close>, clears \<open>tokenPromise\<close> and
    leaves the cached token as it was before the refresh (none, or the same stale
    token);
  \<^item> the next call of \<^verbatim>\<open>getToken()\<close>, made when the clock has moved by \<open>d\<close>,
    starts a fresh refresh whenever the cached token does not pass the test of line 57
    at that time: it allocates a new promise, stores it in \<open>tokenPromise\<close>, and
    posts the request of the same grant when a grant is available;
  \<^item> the cached token does not pass that test when there is none, and at no later
    time \<open>d \<ge> 0\<close> when the clock was never set back (time values in the range of
    \<^verbatim>\<open>Date.now()\<close>).
\<close>

theorem getToken_failure_recovery:
  assumes reach: "run es (boot cfg env t0) = Some w"
    and i: "i < length (calls w)" and own: "calls w ! i = AwaitOwn p"
    and fail: "promises w ! p = Rejected e"
  shows "(\<forall>es' w' j. run es' w = Some w' \<and> j < length (calls w') \<and> calls w' ! j = AwaitShared p \<longrightarrow>
            step (Resume j) w' = Some (w'\<lparr>calls := (calls w')[j := Done (Inl e)]\<rparr>)) \<and>
         step (Resume i) w =
           Some (w\<lparr>this := (this w)\<lparr>tokenPromise := None\<rparr>, calls := (calls w)[i := Done (Inl e)]\<rparr>) \<and>
         (\<forall>d. \<not> token_valid (token (this w)) (clock w + d) \<longrightarrow>
            run [Resume i, Tick d, Call] w =
              Some (w\<lparr>this := (this w)\<lparr>tokenPromise := Some (length (promises w))\<rparr>,
                      clock := clock w + d,
                      promises := promises w @ [refresh_promise (this w)],
                      posts := posts w @ refresh_posts (this w),
                      calls := (calls w)[i := Done (Inl e)] @ [AwaitOwn (length (promises w))]\<rparr>)) \<and>
         (token (this w) = None \<longrightarrow> (\<forall>d. \<not> token_valid (token (this w)) (clock w + d))) \<and>
         (list_all forward es \<and> date_range t0 \<longrightarrow>
            (\<forall>d\<ge>0. date_range (clock w + d) \<longrightarrow> \<not> token_valid (token (this w)) (clock w + d)))"
proof -
  have inv: "invariant w" using invariant_boot reach by (rule invariant_run)
  from inv i own have h: "tokenPromise (this w) = Some p" by (simp add: invariant_def own_handle_def)
  with inv have p: "p < length (promises w)" by (simp add: invariant_def handle_ref_def)
  from fail have np: "promises w ! p \<noteq> Pending" by simp
  have a: "\<forall>es' w' j. run es' w = Some w' \<and> j < length (calls w') \<and> calls w' ! j = AwaitShared p \<longrightarrow>
            step (Resume j) w' = Some (w'\<lparr>calls := (calls w')[j := Done (Inl e)]\<rparr>)"
  proof (intro allI impI, elim conjE)
    fix es' w' j
    assume r: "run es' w = Some w'" and j: "j < length (calls w')" and s: "calls w' ! j = AwaitShared p"
    from run_settled [OF r p np] fail
    have "p < length (promises w')" and "outcome (promises w' ! p) = Some (Inl e)"
      by (simp_all add: outcome_def)
    with j s show "step (Resume j) w' = Some (w'\<lparr>calls := (calls w')[j := Done (Inl e)]\<rparr>)"
      by (intro resume_shared)
  qed
  have b: "step (Resume i) w =
           Some (w\<lparr>this := (this w)\<lparr>tokenPromise := None\<rparr>, calls := (calls w)[i := Done (Inl e)]\<rparr>)"
    using i own p fail by (rule resume_own_rejected)
  have c: "\<forall>d. \<not> token_valid (token (this w)) (clock w + d) \<longrightarrow>
            run [Resume i, Tick d, Call] w =
              Some (w\<lparr>this := (this w)\<lparr>tokenPromise := Some (length (promises w))\<rparr>,
                      clock := clock w + d,
                      promises := promises w @ [refresh_promise (this w)],
                      posts := posts w @ refresh_posts (this w),
                      calls := (calls w)[i := Done (Inl e)] @ [AwaitOwn (length (promises w))]\<rparr>)"
  proof (intro allI impI)
    fix d
    assume stale: "\<not> token_valid (token (this w)) (clock w + d)"
    let ?w1 = "w\<lparr>this := (this w)\<lparr>tokenPromise := None\<rparr>, calls := (calls w)[i := Done (Inl e)]\<rparr>"
    let ?w2 = "?w1\<lparr>clock := clock w + d\<rparr>"
    from stale have "getToken_call ?w2 = getToken_refresh ?w2"
      by (simp add: getToken_call_cases)
    then have "step Call ?w2 = Some (getToken_refresh ?w2)" by simp
    moreover have "step (Tick d) ?w1 = Some ?w2" by simp
    ultimately have "run [Resume i, Tick d, Call] w = Some (getToken_refresh ?w2)"
      using b by simp
    then show "run [Resume i, Tick d, Call] w =
              Some (w\<lparr>this := (this w)\<lparr>tokenPromise := Some (length (promises w))\<rparr>,
                      clock := clock w + d,
                      promises := promises w @ [refresh_promise (this w)],
                      posts := posts w @ refresh_posts (this w),
                      calls := (calls w)[i := Done (Inl e)] @ [AwaitOwn (length (promises w))]\<rparr>)"
      by (simp add: getToken_refresh_eq)
  qed
  have d: "token (this w) = None \<longrightarrow> (\<forall>d. \<not> token_valid (token (this w)) (clock w + d))"
    by (simp add: token_valid_def)
  have f: "list_all forward es \<and> date_range t0 \<longrightarrow>
            (\<forall>d\<ge>0. date_range (clock w + d) \<longrightarrow> \<not> token_valid (token (this w)) (clock w + d))"
  proof (intro impI allI, elim conjE)
    fix d :: int
    assume fw: "list_all forward es" and r0: "date_range t0" and d0: "0 \<le> d"
      and r2: "date_range (clock w + d)"
    from run_clock_forward [OF reach fw] have lo: "t0 \<le> clock w" by (simp add: clock_boot)
    from d0 have hi: "clock w \<le> clock w + d" by simp
    from r0 r2 lo hi have r1: "date_range (clock w)" by (rule date_range_between)
    from r0 have "date_range (clock (boot cfg env t0))" by (simp add: clock_boot)
    with stale_handle_boot reach fw have "stale_handle w" using r1 by (rule stale_handle_run)
    with h have "\<not> token_valid (token (this w)) (clock w)" by (simp add: stale_handle_def)
    then show "\<not> token_valid (token (this w)) (clock w + d)"
      using hi r1 r2 by (rule token_valid_mono)
  qed
  from a b c d f show ?thesis by (intro conjI)
qed

text \<open>
  The token \<open>''AT1''\<close> has expired and two concurrent calls see its refresh answered
  with a 401: both get that error, \<open>''AT1''\<close> is still stale five seconds later, and
  the call made then allocates a third promise.
\<close>

theorem getToken_failure_recovery_witness:
  "\<exists>w. run [Call, Response 0 (Inr resp_AT1), Resume 0, Tick 3600000, Call, Call, Response 1 (Inl ''401'')]
          (boot (Some cfg_password) Map.empty 0) = Some w \<and>
     calls w = [Done (Inr ''AT1''), AwaitOwn 1, AwaitShared 1] \<and>
     promises w ! 1 = Rejected (AxiosError ''401'') \<and>
     step (Resume 2) w =
       Some (w\<lparr>calls := [Done (Inr ''AT1''), AwaitOwn 1, Done (Inl (AxiosError ''401''))]\<rparr>) \<and>
     step (Resume 1) w =
       Some (w\<lparr>this := (this w)\<lparr>tokenPromise := None\<rparr>,
               calls := [Done (Inr ''AT1''), Done (Inl (AxiosError ''401'')), AwaitShared 1]\<rparr>) \<and>
     \<not> token_valid (token (this w)) (clock w + 5000) \<and>
     map_option (length \<circ> promises) (run [Resume 1, Tick 5000, Call] w) = Some 3"
proof -
  let ?es = "[Call, Response 0 (Inr resp_AT1), Resume 0, Tick 3600000, Call, Call, Response 1 (Inl ''401'')]"
  have "\<exists>w. run ?es (boot (Some cfg_password) Map.empty 0) = Some w \<and>
     calls w = [Done (Inr ''AT1''), AwaitOwn 1, AwaitShared 1] \<and>
     length (promises w) = 2 \<and> promises w ! 1 = Rejected (AxiosError ''401'') \<and> clock w = 3600000"
    by (simp add: run_defs cfg_password_def resp_AT1_def)
  then obtain w where r: "run ?es (boot (Some cfg_password) Map.empty 0) = Some w"
    and c: "calls w = [Done (Inr ''AT1''), AwaitOwn 1, AwaitShared 1]"
    and l: "length (promises w) = 2" and f: "promises w ! 1 = Rejected (AxiosError ''401'')"
    and k: "clock w = 3600000"
    by blast
  from c have i: "1 < length (calls w)" and o: "calls w ! 1 = AwaitOwn 1" by simp_all
  note t = getToken_failure_recovery [OF r i o f]
  from t have a: "run [] w = Some w \<and> 2 < length (calls w) \<and> calls w ! 2 = AwaitShared 1 \<longrightarrow>
      step (Resume 2) w = Some (w\<lparr>calls := (calls w)[2 := Done (Inl (AxiosError ''401''))]\<rparr>)"
    by blast
  from a c have 1: "step (Resume 2) w =
       Some (w\<lparr>calls := [Done (Inr ''AT1''), AwaitOwn 1, Done (Inl (AxiosError ''401''))]\<rparr>)"
    by simp
  from t c have 2: "step (Resume 1) w =
       Some (w\<lparr>this := (this w)\<lparr>tokenPromise := None\<rparr>,
               calls := [Done (Inr ''AT1''), Done (Inl (AxiosError ''401'')), AwaitShared 1]\<rparr>)"
    by simp
  have fw: "list_all forward ?es" by (simp add: forward_def)
  have dr: "date_range 0" "date_range (clock w + 5000)" by (simp_all add: k date_range_def)
  from t fw dr(1) have "\<forall>d\<ge>0. date_range (clock w + d) \<longrightarrow> \<not> token_valid (token (this w)) (clock w + d)"
    by blast
  with dr(2) have 3: "\<not> token_valid (token (this w)) (clock w + 5000)" by simp
  from t 3 have "run [Resume 1, Tick 5000, Call] w =
              Some (w\<lparr>this := (this w)\<lparr>tokenPromise := Some (length (promises w))\<rparr>,
                      clock := clock w + 5000,
                      promises := promises w @ [refresh_promise (this w)],
                      posts := posts w @ refresh_posts (this w),
                      calls := (calls w)[1 := Done (Inl (AxiosError ''401''))] @ [AwaitOwn (length (promises w))]\<rparr>)"
    by blast
  then have 4: "map_option (length \<circ> promises) (run [Resume 1, Tick 5000, Call] w) = Some 3"
    using l by simp
  from r c f 1 2 3 4 show ?thesis by blast
qed

subsection \<open>C4: no credentials, no network call\<close>

text \<open>
  Claim C4. For a client constructed with no (or an empty) refresh token and without
  both a username and a password, the first call of \<^verbatim>\<open>getToken()\<close>, once resumed,
  has failed with \<open>ConfigurationError\<close>; the promise was rejected when it was
  allocated, and \<open>posts\<close> is still empty.
\<close>

theorem getToken_no_credentials:
  assumes "\<not> truthy (RedditAuthConfig.refreshToken (config (RedditClient_new cfg env)))"
    and "\<not> (truthy (username (config (RedditClient_new cfg env))) \<and>
             truthy (password (config (RedditClient_new cfg env))))"
  shows "run [Call, Resume 0] (boot cfg env t0) =
           Some ((boot cfg env t0)\<lparr>promises := [Rejected ConfigurationError],
                                   calls := [Done (Inl ConfigurationError)]\<rparr>)"
proof -
  let ?c = "RedditClient_new cfg env"
  have tk: "token ?c = None" "tokenPromise ?c = None" by (simp_all add: RedditClient_new_def Let_def)
  have g: "grant_data ?c = Inl ConfigurationError"
    using assms tk by (auto simp: grant_data_def token_refreshToken_def js_or_def truthy_def split: option.splits)
  have "?c\<lparr>tokenPromise := None\<rparr> = ?c" using tk by simp
  with g tk show ?thesis
    by (simp add: boot_def getToken_call_def getToken_refresh_def requestToken_call_def
          getToken_resume_def)
qed

text \<open>
  The client of \<^verbatim>\<open>src/index.ts\<close> with an empty process environment.
\<close>

theorem getToken_no_credentials_witness:
  "run [Call, Resume 0] (boot None Map.empty 0) =
     Some ((boot None Map.empty 0)\<lparr>promises := [Rejected ConfigurationError],
                                    calls := [Done (Inl ConfigurationError)]\<rparr>) \<and>
   posts ((boot None Map.empty 0)\<lparr>promises := [Rejected ConfigurationError],
                                   calls := [Done (Inl ConfigurationError)]\<rparr>) = []"
proof -
  have 1: "\<not> truthy (RedditAuthConfig.refreshToken (config (RedditClient_new None Map.empty)))"
    by (simp add: RedditClient_new_def truthy_def)
  have 2: "\<not> (truthy (username (config (RedditClient_new None Map.empty))) \<and>
             truthy (password (config (RedditClient_new None Map.empty))))"
    by (simp add: RedditClient_new_def truthy_def)
  from getToken_no_credentials [OF 1 2, of 0] show ?thesis by (simp add: boot_def)
qed

subsection \<open>C5: the refresh token grant comes first\<close>



subsection \<open>C6: the refresh token is carried over\<close>



subsection \<open>C7: the expiry time\<close>




subsection \<open>C8: the authorized request\<close>

text \<open>
  Claim C8. If \<^verbatim>\<open>getToken()\<close> fails with \<open>e\<close>, then \<^verbatim>\<open>getApiClient\<close> and
  \<^verbatim>\<open>request\<close> fail with the same \<open>e\<close> and no request is issued. If it returns
  \<open>tk\<close>, exactly one request is issued, on an axios instance whose base URL is the
  resource API host and whose headers are \<open>Authorization: Bearer tk\<close> and the
  configured user agent; a failure of the transport is passed on, and a success gives
  the \<open>data\<close> of the response. What axios does with the entries of \<open>options\<close> is
  not part of the source.
\<close>

theorem request_propagation:
  "(\<forall>e. getApiClient_resume c (Inl e) = Inl e \<and>
        request_resume c u options transport (Inl e) = ([], Inl e)) \<and>
   (\<forall>tk. \<exists>q. baseURL (api_client q) = ''https://oauth.reddit.com'' \<and>
        map_of (headers (api_client q)) ''Authorization'' = Some (''Bearer '' @ tk) \<and>
        map_of (headers (api_client q)) ''User-Agent'' = Some (userAgent (config c)) \<and>
        api_config q = request_config u options \<and>
        getApiClient_resume c (Inr tk) = Inr (api_client q) \<and>
        request_resume c u options transport (Inr tk) =
          ([q], case transport q of Inl cause \<Rightarrow> Inl (AxiosError cause)
                | Inr response \<Rightarrow> Inr (data response)))"
proof (intro conjI allI)
  fix tk
  let ?q = "\<lparr> api_client = \<lparr> baseURL = ''https://oauth.reddit.com'',
                headers = [(''Authorization'', ''Bearer '' @ tk),
                           (''User-Agent'', userAgent (config c))] \<rparr>,
              api_config = request_config u options \<rparr>"
  have "request_resume c u options transport (Inr tk) =
          ([?q], case transport ?q of Inl cause \<Rightarrow> Inl (AxiosError cause)
                | Inr response \<Rightarrow> Inr (data response))"
    by (simp add: request_resume_def getApiClient_resume_def Let_def split: sum.splits)
  moreover have "getApiClient_resume c (Inr tk) = Inr (api_client ?q)"
    by (simp add: getApiClient_resume_def)
  ultimately show "\<exists>q. baseURL (api_client q) = ''https://oauth.reddit.com'' \<and>
        map_of (headers (api_client q)) ''Authorization'' = Some (''Bearer '' @ tk) \<and>
        map_of (headers (api_client q)) ''User-Agent'' = Some (userAgent (config c)) \<and>
        api_config q = request_config u options \<and>
        getApiClient_resume c (Inr tk) = Inr (api_client q) \<and>
        request_resume c u options transport (Inr tk) =
          ([q], case transport q of Inl cause \<Rightarrow> Inl (AxiosError cause)
                | Inr response \<Rightarrow> Inr (data response))"
    by (intro exI [of _ ?q]) simp
qed (simp_all add: request_resume_def getApiClient_resume_def)

subsection \<open>C9: the configuration is never modified\<close>

text \<open>
  Claim C9. No sequence of events changes the configuration or the axios instance of
  the client: only \<open>token\<close> and \<open>tokenPromise\<close> are written. (The functions
  \<open>getApiClient_resume\<close> and \<open>request_resume\<close> return no client at all.)
\<close>

theorem config_never_modified:
  assumes "run es w = Some w'"
  shows "config (this w') = config (this w) \<and> axios (this w') = axios (this w)"
  using assms
proof (induction es arbitrary: w)
  case Nil
  then show ?case by simp
next
  case (Cons e es)
  from Cons.prems obtain w1 where s: "step e w = Some w1" and r: "run es w1 = Some w'"
    by (auto split: option.splits)
  from Cons.IH [OF r] step_frame [OF s] show ?case by simp
qed

text \<open>
  A run with two refreshes leaves the configuration as it was.
\<close>

theorem config_never_modified_witness:
  "\<exists>w. run [Call, Call, Response 0 (Inr resp_RT1), Resume 1, Resume 0, Tick 3600000, Call]
          (boot (Some cfg_both) Map.empty 0) = Some w \<and>
        config (this w) = cfg_both \<and>
        axios (this w) = axios (this (boot (Some cfg_both) Map.empty 0))"
proof -
  have "\<exists>w. run [Call, Call, Response 0 (Inr resp_RT1), Resume 1, Resume 0, Tick 3600000, Call]
          (boot (Some cfg_both) Map.empty 0) = Some w"
    by (simp add: run_defs cfg_both_def resp_RT1_def)
  then obtain w where r: "run [Call, Call, Response 0 (Inr resp_RT1), Resume 1, Resume 0, Tick 3600000, Call]
          (boot (Some cfg_both) Map.empty 0) = Some w" by blast
  have "config (this (boot (Some cfg_both) Map.empty 0)) = cfg_both"
    by (simp add: boot_def RedditClient_new_def)
  with config_never_modified [OF r] r show ?thesis by auto
qed

subsection \<open>C10: the refresh token of the cached token comes before the configured one\<close>

text \<open>
  Claim C10. When the cached token carries a non-empty refresh token and a refresh
  token is configured as well, \<^verbatim>\<open>requestToken()\<close> posts one request to
  \<open>/api/v1/access_token\<close> whose body is \<open>grant_type=refresh_token\<close> with the
  refresh token of the cached token.
\<close>

theorem requestToken_cached_refresh_token_first:
  assumes "token (this w) = Some t" and "RedditToken.refreshToken t = Some rt" and "rt \<noteq> []"
    and "RedditAuthConfig.refreshToken (config (this w)) = Some rc"
  shows "\<exists>q. posts (fst (requestToken_call w)) = posts w @ [q] \<and>
           post_url q = ''/api/v1/access_token'' \<and>
           post_body q = [(''grant_type'', ''refresh_token''), (''refresh_token'', rt)]"
proof -
  from assms(1-3) have "grant_data (this w) = Inr [(''grant_type'', ''refresh_token''), (''refresh_token'', rt)]"
    by (simp add: grant_data_def token_refreshToken_def js_or_def js_or_str_def truthy_def)
  from requestToken_call_posts [OF this] show ?thesis
    by (intro exI [of _ "token_post (this w) [(''grant_type'', ''refresh_token''), (''refresh_token'', rt)]"])
       (simp add: token_post_def)
qed

text \<open>
  After a refresh answered with \<open>''RT1''\<close>, the body of the next request carries
  \<open>''RT1''\<close> and not the configured \<open>''RT0''\<close>.
\<close>

theorem requestToken_cached_refresh_token_first_witness:
  "\<exists>w t q. run [Call, Response 0 (Inr resp_RT1), Resume 0] (boot (Some cfg_both) Map.empty 0) = Some w \<and>
     token (this w) = Some t \<and> RedditToken.refreshToken t = Some ''RT1'' \<and>
     RedditAuthConfig.refreshToken (config (this w)) = Some ''RT0'' \<and>
     posts (fst (requestToken_call w)) = posts w @ [q] \<and>
     post_body q = [(''grant_type'', ''refresh_token''), (''refresh_token'', ''RT1'')]"
proof -
  have "\<exists>w t. run [Call, Response 0 (Inr resp_RT1), Resume 0] (boot (Some cfg_both) Map.empty 0) = Some w \<and>
     token (this w) = Some t \<and> RedditToken.refreshToken t = Some ''RT1'' \<and>
     RedditAuthConfig.refreshToken (config (this w)) = Some ''RT0''"
    by (simp add: run_defs cfg_both_def resp_RT1_def)
  then obtain w t where r: "run [Call, Response 0 (Inr resp_RT1), Resume 0] (boot (Some cfg_both) Map.empty 0) = Some w"
    and t: "token (this w) = Some t" and rt: "RedditToken.refreshToken t = Some ''RT1''"
    and rc: "RedditAuthConfig.refreshToken (config (this w)) = Some ''RT0''"
    by blast
  have "''RT1'' \<noteq> ([] :: string)" by simp
  from requestToken_cached_refresh_token_first [OF t rt this rc] r t rt rc show ?thesis by blast
qed

end
